theory Spec2Isabelle
  imports Complex_Main "HOL-Library.Log_Nat" "HOL-Library.Word"
begin

section \<open>Python values: errors, numbers, lists\<close>

text \<open>
  The chain-head database of \<^verbatim>\<open>evm/db/chain_head.py\<close> is Python 3. Every exception
  the code can raise is a value of \<open>error\<close>; a method returns \<open>Inl e\<close> when it raises
  \<open>e\<close> and \<open>Inr v\<close> when it returns \<open>v\<close>; what a call has written before it raises is
  not kept. The validators of \<^verbatim>\<open>evm.validation\<close> are
  not part of the sources at hand; their three failures carry the names the
  specification gives them.
\<close>

datatype error =
    InvalidHeadRootTimestamp
  | InvalidAddress
  | InvalidBytes
  | InvalidUint256
  | CorruptStore
  | TypeError
  | IndexError
  | ZeroDivisionError
  | OverflowError
  | ValueError

fun bind_err :: "error + 'a \<Rightarrow> ('a \<Rightarrow> error + 'b) \<Rightarrow> error + 'b" where
  "bind_err (Inl e) f = Inl e"
| "bind_err (Inr x) f = f x"

text \<open>
  Python 3 numbers. \<^verbatim>\<open>a / b\<close> on two integers is true division: the result is a
  \<^verbatim>\<open>float\<close>, the IEEE binary64 number nearest to the exact quotient (ties to even),
  also when \<open>b\<close> divides \<open>a\<close>. A float is kept as the rational number it denotes.
\<close>

datatype pynum = PyInt int | PyFloat rat

definition round_half_even :: "rat \<Rightarrow> int" where
  "round_half_even x =
     (let f = \<lfloor>x\<rfloor>; d = x - of_int f
      in if d < 1 / 2 then f else if 1 / 2 < d then f + 1 else if even f then f else f + 1)"

text \<open>\<open>ilog2 x\<close> is \<open>\<lfloor>log\<^sub>2 x\<rfloor>\<close> for a positive rational \<open>x\<close>, computed from bit lengths.\<close>

definition ilog2 :: "rat \<Rightarrow> int" where
  "ilog2 x = (case quotient_of x of (a, b) \<Rightarrow>
     (let d = bitlen a - bitlen b in if 2 powi d \<le> x then d else d - 1))"

text \<open>
  Rounding to binary64: 53 significant bits, exponents from \<open>-1022\<close> (below that the
  spacing stays \<open>2\<^sup>-\<^sup>1\<^sup>0\<^sup>7\<^sup>4\<close>: subnormal numbers). A result of magnitude \<open>2\<^sup>1\<^sup>0\<^sup>2\<^sup>4\<close> or
  more does not exist as a float: Python raises \<^verbatim>\<open>OverflowError\<close>.
\<close>

definition round_to_double :: "rat \<Rightarrow> rat" where
  "round_to_double x =
     (if x = 0 then 0
      else let e = max (ilog2 \<bar>x\<bar>) (- 1022); u = 2 powi (e - 52)
           in sgn x * of_int (round_half_even (\<bar>x\<bar> / u)) * u)"

definition py_float :: "rat \<Rightarrow> error + pynum" where
  "py_float x =
     (let r = round_to_double x
      in if 2 ^ 1024 \<le> \<bar>r\<bar> then Inl OverflowError else Inr (PyFloat r))"

definition py_truediv :: "int \<Rightarrow> int \<Rightarrow> error + pynum" where
  "py_truediv a b =
     (if b = 0 then Inl ZeroDivisionError else py_float (of_int a / of_int b))"

text \<open>\<^verbatim>\<open>x + y\<close>: integer addition on two integers, float addition as soon as one is a float.\<close>

fun py_add :: "pynum \<Rightarrow> pynum \<Rightarrow> error + pynum" where
  "py_add (PyInt a) (PyInt b) = Inr (PyInt (a + b))"
| "py_add (PyFloat x) (PyInt b) =
     bind_err (py_float (of_int b)) (\<lambda>y. case y of PyFloat y' \<Rightarrow> py_float (x + y') | PyInt _ \<Rightarrow> Inl TypeError)"
| "py_add (PyInt a) (PyFloat y) =
     bind_err (py_float (of_int a)) (\<lambda>x. case x of PyFloat x' \<Rightarrow> py_float (x' + y) | PyInt _ \<Rightarrow> Inl TypeError)"
| "py_add (PyFloat x) (PyFloat y) = py_float (x + y)"

text \<open>\<^verbatim>\<open>int(x)\<close> truncates a float towards zero.\<close>

fun py_int :: "pynum \<Rightarrow> int" where
  "py_int (PyInt a) = a"
| "py_int (PyFloat x) = (if 0 \<le> x then \<lfloor>x\<rfloor> else \<lceil>x\<rceil>)"

text \<open>
  \<^verbatim>\<open>range(start, stop)\<close> accepts integers only: a float argument raises
  \<^verbatim>\<open>TypeError: 'float' object cannot be interpreted as an integer\<close>.
\<close>

fun py_range :: "pynum \<Rightarrow> pynum \<Rightarrow> error + int list" where
  "py_range (PyInt a) (PyInt b) = Inr [a..b - 1]"
| "py_range (PyFloat x) _ = Inl TypeError"
| "py_range _ (PyFloat y) = Inl TypeError"

text \<open>\<^verbatim>\<open>range(start, stop, step)\<close> on integers.\<close>

definition py_range_step :: "int \<Rightarrow> int \<Rightarrow> int \<Rightarrow> error + int list" where
  "py_range_step start stop step =
     (if step = 0 then Inl ValueError
      else if 0 < step
        then Inr (map (\<lambda>k. start + step * int k) [0..<nat ((stop - start + step - 1) div step)])
        else Inr (map (\<lambda>k. start + step * int k) [0..<nat ((start - stop - step - 1) div (- step))]))"

text \<open>\<^verbatim>\<open>xs[i]\<close>: a negative index counts from the end, an index out of range raises.\<close>

definition py_index :: "'a list \<Rightarrow> int \<Rightarrow> error + 'a" where
  "py_index xs i =
     (if 0 \<le> i \<and> i < int (length xs) then Inr (xs ! nat i)
      else if i < 0 \<and> - int (length xs) \<le> i then Inr (xs ! nat (int (length xs) + i))
      else Inl IndexError)"

text \<open>\<^verbatim>\<open>xs[i] = v\<close> for an index that \<open>py_index\<close> accepts.\<close>

definition py_setitem :: "'a list \<Rightarrow> int \<Rightarrow> 'a \<Rightarrow> 'a list" where
  "py_setitem xs i v = xs[nat (if i < 0 then int (length xs) + i else i) := v]"

text \<open>\<^verbatim>\<open>del xs[:stop]\<close>: the slice bound is clipped to the list, a negative one counts from the end.\<close>

definition py_del_prefix :: "'a list \<Rightarrow> int \<Rightarrow> 'a list" where
  "py_del_prefix xs stop =
     (let n = int (length xs)
      in drop (nat (if stop < 0 then max 0 (n + stop) else min stop n)) xs)"

text \<open>\<^verbatim>\<open>xs.insert(i, v)\<close> for \<open>0 \<le> i \<le> len(xs)\<close>.\<close>

definition py_insert :: "'a list \<Rightarrow> nat \<Rightarrow> 'a \<Rightarrow> 'a list" where
  "py_insert xs i v = take i xs @ v # drop i xs"

section \<open>The key-value store and the trie\<close>

type_synonym bytes = "8 word list"

text \<open>
  Modelled from the spec: the binary trie (\<^verbatim>\<open>BinaryTrie\<close> of the \<^verbatim>\<open>trie\<close> package behind
  \<^verbatim>\<open>evm.db.hash_trie.HashTrie\<close>) is missing from the sources. The specification makes it
  a content-addressed authenticated map: a snapshot is a finite mapping from addresses
  to hashes, identified by its root hash; \<open>get\<close> never mutates, \<open>put\<close> returns the root of
  the updated trie and old roots remain addressable; the root of the empty trie is
  \<open>BLANK_HASH\<close>. A root hash is therefore taken to be the mapping it identifies (keccak
  without collisions), and the nodes of a snapshot are present in a store when its root
  is a member of the store's node set.
\<close>

type_synonym root = "bytes \<rightharpoonup> bytes"

definition BLANK_HASH :: root where
  "BLANK_HASH = Map.empty"

text \<open>
  The key-value store \<^verbatim>\<open>self.db\<close>, one field for each family of keys that
  \<^verbatim>\<open>evm.db.schema.SchemaV1\<close> makes: the current head root, the historical root hashes
  (a list of pairs of window and root, kept as RLP), the chronological block windows
  (one list of pairs of timestamp and block hash for each window) and the trie nodes.
  RLP coding and \<^verbatim>\<open>big_endian_to_int\<close> / \<^verbatim>\<open>int_to_big_endian\<close> are inverse to each other
  on what the code stores, so the store keeps decoded values: windows and timestamps
  are integers.
\<close>

record kvstore =
  current_head_root :: "root option"
  historical_head_root :: "(int \<times> root) list option"
  chronological_window :: "int \<rightharpoonup> (int \<times> bytes) list"
  trie_nodes :: "root set"

text \<open>
  An instance of class \<^verbatim>\<open>ChainHeadDB\<close>: the store \<^verbatim>\<open>self.db\<close>, the trie nodes written
  through \<^verbatim>\<open>self._batchtrie\<close> and not yet committed, the root of \<^verbatim>\<open>self._trie\<close> and the
  values held by \<^verbatim>\<open>self._trie_cache\<close>.
\<close>

record ChainHeadDB =
  db :: kvstore
  batchtrie :: "root set"
  root_hash :: root
  trie_cache :: "bytes \<rightharpoonup> bytes option"

text \<open>\<^verbatim>\<open>__init__(self, db, root_hash=BLANK_HASH)\<close>.\<close>

definition ChainHeadDB_init :: "kvstore \<Rightarrow> root \<Rightarrow> ChainHeadDB" where
  "ChainHeadDB_init store r =
     \<lparr>db = store, batchtrie = {}, root_hash = r, trie_cache = Map.empty\<rparr>"

text \<open>
  Modelled from the spec: reading the trie of a handle needs the nodes of its root, in
  the write buffer or in the store; a missing node is fatal (\<open>CorruptStore\<close>). The empty
  trie has no nodes.
\<close>

definition trie_readable :: "ChainHeadDB \<Rightarrow> bool" where
  "trie_readable self =
     (root_hash self = BLANK_HASH \<or> root_hash self \<in> batchtrie self
        \<or> root_hash self \<in> trie_nodes (db self))"

definition trie_get :: "bytes \<Rightarrow> ChainHeadDB \<Rightarrow> error + bytes option" where
  "trie_get key self =
     (if trie_readable self then Inr (root_hash self key) else Inl CorruptStore)"

definition trie_set :: "bytes \<Rightarrow> bytes \<Rightarrow> ChainHeadDB \<Rightarrow> error + ChainHeadDB" where
  "trie_set key val self =
     (if trie_readable self
      then let r = (root_hash self)(key \<mapsto> val)
           in Inr (self\<lparr>root_hash := r, batchtrie := insert r (batchtrie self)\<rparr>)
      else Inl CorruptStore)"

text \<open>
  Modelled from the spec: the cached wrapper \<^verbatim>\<open>evm.db.cache.CacheDB\<close> memoizes reads and
  records writes; the batch wrapper \<^verbatim>\<open>evm.db.batch.BatchDB\<close> buffers node writes until
  \<^verbatim>\<open>commit\<close> flushes them to the store. The bound of the cache is left out: a value
  that the cache has dropped is read from the trie again.
\<close>

definition cache_get :: "bytes \<Rightarrow> ChainHeadDB \<Rightarrow> error + (bytes option \<times> ChainHeadDB)" where
  "cache_get key self =
     (case trie_cache self key of
        Some v \<Rightarrow> Inr (v, self)
      | None \<Rightarrow>
          bind_err (trie_get key self)
            (\<lambda>v. Inr (v, self\<lparr>trie_cache := (trie_cache self)(key \<mapsto> v)\<rparr>)))"

definition cache_set :: "bytes \<Rightarrow> bytes \<Rightarrow> ChainHeadDB \<Rightarrow> error + ChainHeadDB" where
  "cache_set key val self =
     trie_set key val (self\<lparr>trie_cache := (trie_cache self)(key \<mapsto> Some val)\<rparr>)"

definition batch_commit :: "ChainHeadDB \<Rightarrow> ChainHeadDB" where
  "batch_commit self =
     self\<lparr>db := (db self)\<lparr>trie_nodes := trie_nodes (db self) \<union> batchtrie self\<rparr>,
          batchtrie := {}\<rparr>"

section \<open>Validators\<close>

text \<open>
  Modelled from the spec: \<^verbatim>\<open>evm.validation\<close> is missing from the sources. An address is
  canonical when it has 20 bytes; a hash has to be a byte string, which the type
  \<open>bytes\<close> already says; a timestamp has to lie in \<open>[0, 2\<^sup>2\<^sup>5\<^sup>6)\<close>.
\<close>

definition validate_canonical_address :: "bytes \<Rightarrow> error + unit" where
  "validate_canonical_address a = (if length a = 20 then Inr () else Inl InvalidAddress)"

definition validate_is_bytes :: "bytes \<Rightarrow> error + unit" where
  "validate_is_bytes h = Inr ()"

definition validate_uint256 :: "int \<Rightarrow> error + unit" where
  "validate_uint256 v = (if 0 \<le> v \<and> v < 2 ^ 256 then Inr () else Inl InvalidUint256)"

section \<open>The chain-head database\<close>

text \<open>
  The methods of \<^verbatim>\<open>ChainHeadDB\<close>, in the order of the source. Three values are not in
  the sources and are parameters of every method that reads them:
  \<open>W\<close> is \<^verbatim>\<open>TIME_BETWEEN_HEAD_HASH_SAVE\<close>, \<open>N\<close> is \<^verbatim>\<open>NUMBER_OF_HEAD_HASH_TO_SAVE\<close> (both
  from \<^verbatim>\<open>evm.constants\<close>), and \<open>now\<close> is the clock: the whole seconds of \<^verbatim>\<open>time.time()\<close>,
  that is \<^verbatim>\<open>int(time.time())\<close>, the same at every reading within one call;
  \<^verbatim>\<open>int(time.time() / W)\<close> is the same integer for the clock and for its whole seconds.
  \<open>W\<close> is a positive constant: \<^verbatim>\<open>x % W\<close> is \<open>x mod W\<close>.
\<close>

subsection \<open>Block hash API\<close>

definition set_chain_head_hash :: "bytes \<Rightarrow> bytes \<Rightarrow> ChainHeadDB \<Rightarrow> error + ChainHeadDB" where
  "set_chain_head_hash address head_hash self =
     bind_err (validate_canonical_address address) (\<lambda>_.
     bind_err (validate_is_bytes head_hash) (\<lambda>_.
     cache_set address head_hash self))"

definition get_chain_head_hash ::
  "bytes \<Rightarrow> ChainHeadDB \<Rightarrow> error + (bytes option \<times> ChainHeadDB)" where
  "get_chain_head_hash address self =
     bind_err (validate_canonical_address address) (\<lambda>_. cache_get address self)"

subsection \<open>Saving to the store\<close>

definition save_historical_root_hashes :: "(int \<times> root) list \<Rightarrow> ChainHeadDB \<Rightarrow> ChainHeadDB" where
  "save_historical_root_hashes root_hashes self =
     self\<lparr>db := (db self)\<lparr>historical_head_root := Some root_hashes\<rparr>\<rparr>"

definition get_historical_root_hashes :: "ChainHeadDB \<Rightarrow> (int \<times> root) list option" where
  "get_historical_root_hashes self = historical_head_root (db self)"

definition get_latest_timestamp :: "ChainHeadDB \<Rightarrow> error + int" where
  "get_latest_timestamp self =
     (case get_historical_root_hashes self of
        None \<Rightarrow> Inr 0
      | Some historical \<Rightarrow> bind_err (py_index historical (- 1)) (\<lambda>e. Inr (fst e)))"

subsection \<open>Chronological chain\<close>

definition save_chronological_block_window ::
  "int \<Rightarrow> (int \<times> bytes) list \<Rightarrow> int \<Rightarrow> ChainHeadDB \<Rightarrow> error + ChainHeadDB" where
  "save_chronological_block_window W data timestamp self =
     bind_err (validate_uint256 timestamp) (\<lambda>_.
     if timestamp mod W \<noteq> 0 then Inl InvalidHeadRootTimestamp
     else Inr (self\<lparr>db := (db self)\<lparr>chronological_window :=
                 (chronological_window (db self))(timestamp \<mapsto> data)\<rparr>\<rparr>))"

definition load_chronological_block_window ::
  "int \<Rightarrow> int \<Rightarrow> ChainHeadDB \<Rightarrow> error + (int \<times> bytes) list option" where
  "load_chronological_block_window W timestamp self =
     bind_err (validate_uint256 timestamp) (\<lambda>_.
     if timestamp mod W \<noteq> 0 then Inl InvalidHeadRootTimestamp
     else Inr (chronological_window (db self) timestamp))"

definition delete_chronological_block_window ::
  "int \<Rightarrow> int \<Rightarrow> ChainHeadDB \<Rightarrow> error + ChainHeadDB" where
  "delete_chronological_block_window W timestamp self =
     bind_err (validate_uint256 timestamp) (\<lambda>_.
     if timestamp mod W \<noteq> 0 then Inl InvalidHeadRootTimestamp
     else Inr (self\<lparr>db := (db self)\<lparr>chronological_window :=
                 (chronological_window (db self))(timestamp := None)\<rparr>\<rparr>))"

text \<open>
  The backwards scan of \<^verbatim>\<open>add_block_hash_to_chronological_window\<close>,
  \<^verbatim>\<open>for i in range(len(data)-1,-1,-1)\<close> with its \<^verbatim>\<open>break\<close>: the index of the last entry
  among the first \<open>n\<close> whose timestamp is at most \<open>timestamp\<close>, if there is one.
\<close>

fun scan_back :: "(int \<times> bytes) list \<Rightarrow> nat \<Rightarrow> int \<Rightarrow> nat option" where
  "scan_back data 0 timestamp = None"
| "scan_back data (Suc i) timestamp =
     (if fst (data ! i) \<le> timestamp then Some i else scan_back data i timestamp)"

definition add_block_hash_to_chronological_window ::
  "int \<Rightarrow> int \<Rightarrow> int \<Rightarrow> bytes \<Rightarrow> int \<Rightarrow> ChainHeadDB \<Rightarrow> error + ChainHeadDB" where
  "add_block_hash_to_chronological_window W N now head_hash timestamp self =
     bind_err (validate_is_bytes head_hash) (\<lambda>_.
     bind_err (validate_uint256 timestamp) (\<lambda>_.
     if timestamp > now - N * W then
       bind_err (py_truediv timestamp W) (\<lambda>q.
       let window_for_this_block = py_int q * W in
       bind_err (load_chronological_block_window W window_for_this_block self) (\<lambda>data.
       let new_data =
             (case data of
                None \<Rightarrow> [(timestamp, head_hash)]
              | Some data \<Rightarrow>
                  (case scan_back data (length data) timestamp of
                     Some i \<Rightarrow> py_insert data (i + 1) (timestamp, head_hash)
                   | None \<Rightarrow> py_insert data 0 (timestamp, head_hash)))
       in save_chronological_block_window W new_data window_for_this_block self))
     else Inr self))"

subsection \<open>The historical root hashes\<close>

text \<open>\<^verbatim>\<open>for i in range(initial_first_time, final_first_time, W): self.delete_chronological_block_window(i)\<close>\<close>

fun delete_chronological_block_windows ::
  "int \<Rightarrow> int list \<Rightarrow> ChainHeadDB \<Rightarrow> error + ChainHeadDB" where
  "delete_chronological_block_windows W [] self = Inr self"
| "delete_chronological_block_windows W (i # is) self =
     bind_err (delete_chronological_block_window W i self)
       (delete_chronological_block_windows W is)"

text \<open>
  \<^verbatim>\<open>for i in range(num_increments_needed): historical_roots.append([latest_time + W*(i+1), historical_roots[-1][1]])\<close>
  on a list that is not empty.
\<close>

fun append_increments :: "int \<Rightarrow> int \<Rightarrow> int list \<Rightarrow> (int \<times> root) list \<Rightarrow> (int \<times> root) list" where
  "append_increments W latest_time [] historical_roots = historical_roots"
| "append_increments W latest_time (i # is) historical_roots =
     append_increments W latest_time is
       (historical_roots @ [(latest_time + W * (i + 1), snd (last historical_roots))])"

definition append_current_root_hash_to_historical ::
  "int \<Rightarrow> int \<Rightarrow> int \<Rightarrow> ChainHeadDB \<Rightarrow> error + ChainHeadDB" where
  "append_current_root_hash_to_historical W N now self =
     (let historical_roots = get_historical_root_hashes self in
      bind_err (py_truediv now W) (\<lambda>q.
      let last_finished_window = py_int q * W;
          current_window = last_finished_window + W in
      case historical_roots of
        None \<Rightarrow> Inr (save_historical_root_hashes [(current_window, root_hash self)] self)
      | Some historical_roots \<Rightarrow>
          bind_err (py_index historical_roots 0) (\<lambda>first.
          bind_err (py_index historical_roots (- 1)) (\<lambda>latest.
          let initial_first_time = fst first;
              latest_time = fst latest in
          if latest_time > last_finished_window then
            Inr (save_historical_root_hashes
                  (py_setitem historical_roots (- 1) (latest_time, root_hash self)) self)
          else if latest_time < now - N * W then
            bind_err (py_range (PyInt 0) (PyInt N)) (\<lambda>is.
            let start_time = now - N * W;
                new_historical_roots =
                  map (\<lambda>i. (start_time + W * i, snd latest)) is
                    @ [(current_window, root_hash self)];
                self1 = save_historical_root_hashes new_historical_roots self;
                final_first_time = fst (hd new_historical_roots) in
            bind_err (py_range_step initial_first_time final_first_time W)
              (\<lambda>ws. delete_chronological_block_windows W ws self1))
          else
            bind_err (py_truediv (last_finished_window - latest_time) W) (\<lambda>q2.
            let num_increments_needed = py_int q2 in
            bind_err (py_range (PyInt 0) (PyInt num_increments_needed)) (\<lambda>is.
            let appended = append_increments W latest_time is historical_roots
                             @ [(current_window, root_hash self)];
                trimmed = py_del_prefix appended (- 1 * N);
                self1 = save_historical_root_hashes trimmed self in
            bind_err (py_index trimmed 0) (\<lambda>final_first.
            bind_err (py_range_step initial_first_time (fst final_first) W)
              (\<lambda>ws. delete_chronological_block_windows W ws self1))))))))"

subsection \<open>Record and discard API\<close>

definition save_current_root_hash :: "int \<Rightarrow> int \<Rightarrow> int \<Rightarrow> ChainHeadDB \<Rightarrow> error + ChainHeadDB" where
  "save_current_root_hash W N now self =
     append_current_root_hash_to_historical W N now
       (self\<lparr>db := (db self)\<lparr>current_head_root := Some (root_hash self)\<rparr>\<rparr>)"

definition persist :: "int \<Rightarrow> int \<Rightarrow> int \<Rightarrow> bool \<Rightarrow> ChainHeadDB \<Rightarrow> error + ChainHeadDB" where
  "persist W N now save_current self =
     (let self1 = batch_commit self
      in if save_current then save_current_root_hash W N now self1 else Inr self1)"

definition load_from_saved_root_hash :: "kvstore \<Rightarrow> ChainHeadDB" where
  "load_from_saved_root_hash store =
     (case current_head_root store of
        None \<Rightarrow> ChainHeadDB_init store BLANK_HASH
      | Some loaded_root_hash \<Rightarrow> ChainHeadDB_init store loaded_root_hash)"

subsection \<open>Head hashes at a timestamp\<close>

text \<open>
  \<^verbatim>\<open>dict(historical_roots)\<close> keeps the last entry of a key that occurs twice, hence the
  lookup in the reversed list.
\<close>

definition get_chain_head_hash_at_timestamp ::
  "int \<Rightarrow> int \<Rightarrow> bytes \<Rightarrow> int \<Rightarrow> ChainHeadDB \<Rightarrow> error + bytes option" where
  "get_chain_head_hash_at_timestamp W now address timestamp self =
     bind_err (validate_canonical_address address) (\<lambda>_.
     bind_err (validate_uint256 timestamp) (\<lambda>_.
     if timestamp > now then Inl InvalidHeadRootTimestamp
     else if timestamp mod W \<noteq> 0 then Inl InvalidHeadRootTimestamp
     else
       (case get_historical_root_hashes self of
          None \<Rightarrow> Inr None
        | Some historical_roots \<Rightarrow>
            bind_err (py_index historical_roots 0) (\<lambda>first.
            if timestamp < fst first then Inr None
            else
              bind_err
                (case map_of (rev historical_roots) timestamp of
                   Some historical_root \<Rightarrow> Inr historical_root
                 | None \<Rightarrow> bind_err (py_index historical_roots (- 1)) (\<lambda>e. Inr (snd e)))
                (\<lambda>historical_root.
                   let new_chain_head_db = ChainHeadDB_init (db self) historical_root in
                   bind_err (cache_get address new_chain_head_db)
                     (\<lambda>(head_hash, _). Inr head_hash))))))"

text \<open>
  The loop of \<^verbatim>\<open>add_block_hash_to_timestamp\<close> over the indices \<open>is\<close>: load the root at
  index \<open>i\<close>, set the head hash in a new handle on the same store, persist it without
  saving the current root, and put the new root at index \<open>i\<close>.
\<close>

fun rewrite_historical_roots ::
  "int \<Rightarrow> int \<Rightarrow> int \<Rightarrow> bytes \<Rightarrow> bytes \<Rightarrow> int list \<Rightarrow> (int \<times> root) list \<Rightarrow> ChainHeadDB
     \<Rightarrow> error + ((int \<times> root) list \<times> ChainHeadDB)" where
  "rewrite_historical_roots W N now address head_hash [] historical_roots self =
     Inr (historical_roots, self)"
| "rewrite_historical_roots W N now address head_hash (i # is) historical_roots self =
     bind_err (py_index historical_roots i) (\<lambda>entry.
     let root_hash_to_load = snd entry;
         new_blockchain_head_db = ChainHeadDB_init (db self) root_hash_to_load in
     bind_err (set_chain_head_hash address head_hash new_blockchain_head_db) (\<lambda>h1.
     bind_err (persist W N now False h1) (\<lambda>h2.
     let new_root_hash = root_hash h2 in
     rewrite_historical_roots W N now address head_hash is
       (py_setitem historical_roots i (fst entry, new_root_hash))
       (self\<lparr>db := db h2\<rparr>))))"

definition add_block_hash_to_timestamp ::
  "int \<Rightarrow> int \<Rightarrow> int \<Rightarrow> bytes \<Rightarrow> bytes \<Rightarrow> int \<Rightarrow> ChainHeadDB \<Rightarrow> error + ChainHeadDB" where
  "add_block_hash_to_timestamp W N now address head_hash timestamp self =
     bind_err (validate_canonical_address address) (\<lambda>_.
     bind_err (validate_is_bytes head_hash) (\<lambda>_.
     bind_err (validate_uint256 timestamp) (\<lambda>_.
     if timestamp > now then Inl InvalidHeadRootTimestamp
     else if timestamp mod W \<noteq> 0 then Inl InvalidHeadRootTimestamp
     else
       bind_err (append_current_root_hash_to_historical W N now self) (\<lambda>self1.
       case get_historical_root_hashes self1 of
         None \<Rightarrow> Inl TypeError
       | Some historical_roots \<Rightarrow>
           bind_err (py_index historical_roots 0) (\<lambda>first.
           let start_timestamp = (if timestamp < fst first then fst first else timestamp) in
           bind_err (py_truediv now W) (\<lambda>q.
           let last_finished_window = py_int q * W in
           bind_err (py_truediv (last_finished_window - start_timestamp) W) (\<lambda>q1.
           bind_err (py_add q1 (PyInt 1)) (\<lambda>q2.
           let num_increments = py_int q2 in
           bind_err (py_truediv (timestamp - fst first) W) (\<lambda>starting_index.
           bind_err (py_range starting_index (PyInt num_increments)) (\<lambda>is.
           bind_err (rewrite_historical_roots W N now address head_hash is historical_roots self1)
             (\<lambda>(historical_roots', self2).
                Inr (save_historical_root_hashes historical_roots' self2))))))))))))"

section \<open>Example data\<close>

text \<open>
  The values of the end-to-end scenarios of the specification: addresses of 20 bytes,
  hashes of 32 bytes, a store with no key at all, and the snapshot \<open>root_R0\<close> in which
  the head of \<open>addr_A\<close> is \<open>hash_H1\<close>.
\<close>

definition empty_store :: kvstore where
  "empty_store = \<lparr>current_head_root = None, historical_head_root = None,
                   chronological_window = Map.empty, trie_nodes = {}\<rparr>"

definition addr_A :: bytes where
  "addr_A = map of_nat [1..<21]"

definition addr_B :: bytes where
  "addr_B = replicate 20 2"

definition hash_H1 :: bytes where
  "hash_H1 = replicate 32 170"

definition hash_H2 :: bytes where
  "hash_H2 = replicate 32 187"

definition hash_H3 :: bytes where
  "hash_H3 = replicate 32 204"

text \<open>A store with one chronological block window and nothing else.\<close>

definition store_with_window :: "int \<Rightarrow> (int \<times> bytes) list \<Rightarrow> kvstore" where
  "store_with_window w data =
     \<lparr>current_head_root = None, historical_head_root = None,
      chronological_window = [w \<mapsto> data], trie_nodes = {}\<rparr>"

definition root_R0 :: root where
  "root_R0 = [addr_A \<mapsto> hash_H1]"

text \<open>A store whose historical root hashes are \<open>ring\<close> and that holds the nodes of \<open>root_R0\<close>.\<close>

definition store_with_ring :: "(int \<times> root) list \<Rightarrow> kvstore" where
  "store_with_ring ring =
     \<lparr>current_head_root = Some root_R0, historical_head_root = Some ring,
      chronological_window = Map.empty, trie_nodes = {root_R0}\<rparr>"

section \<open>The invariant of the historical root hashes\<close>

text \<open>
  The specification's invariant of the ring: the windows increase strictly, two
  neighbours are exactly \<open>W\<close> apart, and there are at most \<open>N + 1\<close> entries.
\<close>

fun ring_spaced :: "int \<Rightarrow> int list \<Rightarrow> bool" where
  "ring_spaced W (w # w' # ws) = (w' = w + W \<and> ring_spaced W (w' # ws))"
| "ring_spaced W _ = True"

definition ring_invariant :: "int \<Rightarrow> int \<Rightarrow> (int \<times> root) list \<Rightarrow> bool" where
  "ring_invariant W N ring =
     (sorted_wrt (<) (map fst ring) \<and> ring_spaced W (map fst ring)
        \<and> int (length ring) \<le> N + 1)"

section \<open>Properties\<close>

subsection \<open>Integer quotients through true division\<close>

text \<open>
  \<^verbatim>\<open>int(a / b)\<close> is the integer quotient as long as the dividend stays below \<open>2\<^sup>5\<^sup>3\<close>: the
  rounding of the float quotient never reaches the next integer.
\<close>

lemma round_half_even_ge:
  assumes "of_int m \<le> y"
  shows "m \<le> round_half_even y"
proof -
  from assms have "m \<le> \<lfloor>y\<rfloor>" by (simp add: le_floor_iff)
  moreover have "\<lfloor>y\<rfloor> \<le> round_half_even y" by (simp add: round_half_even_def Let_def)
  ultimately show ?thesis by simp
qed

lemma round_half_even_less:
  assumes "y < of_int m - 1 / 2"
  shows "round_half_even y < m"
proof -
  have f: "of_int \<lfloor>y\<rfloor> \<le> y" by simp
  show ?thesis
  proof (cases "y - of_int \<lfloor>y\<rfloor> < 1 / 2")
    case True
    have "of_int \<lfloor>y\<rfloor> < (of_int m :: rat)" using f assms by linarith
    then have "\<lfloor>y\<rfloor> < m" by simp
    with True show ?thesis by (simp add: round_half_even_def Let_def)
  next
    case False
    then have "of_int \<lfloor>y\<rfloor> + 1 < (of_int m :: rat)" using assms by linarith
    then have "of_int (\<lfloor>y\<rfloor> + 1) < (of_int m :: rat)" by simp
    then have "\<lfloor>y\<rfloor> + 1 < m" by (simp only: of_int_less_iff)
    then show ?thesis by (auto simp: round_half_even_def Let_def)
  qed
qed

lemma bitlen_powi_bounds:
  assumes "0 < a"
  shows "2 powi (bitlen a - 1) \<le> (of_int a :: rat)" and "(of_int a :: rat) < 2 powi (bitlen a)"
proof -
  from assms have ge: "1 \<le> bitlen a" by (auto simp: bitlen_alt_def)
  from bitlen_bounds [OF assms] have b: "2 ^ nat (bitlen a - 1) \<le> a" "a < 2 ^ nat (bitlen a)" by auto
  from b(1) have "(of_int (2 ^ nat (bitlen a - 1)) :: rat) \<le> of_int a" by (simp only: of_int_le_iff)
  then show "2 powi (bitlen a - 1) \<le> (of_int a :: rat)" using ge by (simp add: power_int_def)
  from b(2) have "(of_int a :: rat) < of_int (2 ^ nat (bitlen a))" by (simp only: of_int_less_iff)
  then show "(of_int a :: rat) < 2 powi (bitlen a)" using ge by (simp add: power_int_def)
qed

lemma ilog2_bounds:
  assumes "0 < x"
  shows "2 powi (ilog2 x) \<le> x" and "x < 2 powi (ilog2 x + 1)"
proof -
  obtain a b where q: "quotient_of x = (a, b)" by (cases "quotient_of x")
  then have x: "x = of_int a / of_int b" and b: "0 < b"
    by (simp_all add: quotient_of_div quotient_of_denom_pos)
  from assms x b have a: "0 < a" by (simp add: zero_less_divide_iff)
  define d where "d = bitlen a - bitlen b"
  have lo: "2 powi (d - 1) \<le> x"
  proof -
    have "2 powi (d - 1) = (2 powi (bitlen a - 1) :: rat) / 2 powi (bitlen b)"
      by (simp add: d_def power_int_diff)
    also have "\<dots> \<le> of_int a / 2 powi (bitlen b)"
      using bitlen_powi_bounds(1) [OF a] by (simp add: divide_right_mono)
    also have "\<dots> \<le> of_int a / of_int b"
      using bitlen_powi_bounds(2) [OF b] a b by (simp add: frac_le)
    finally show ?thesis by (simp add: x)
  qed
  have hi: "x < 2 powi (d + 1)"
  proof -
    have "x = of_int a / of_int b" by (rule x)
    also have "\<dots> < 2 powi (bitlen a) / of_int b"
      using bitlen_powi_bounds(2) [OF a] b by (simp add: divide_strict_right_mono)
    also have "\<dots> \<le> 2 powi (bitlen a) / 2 powi (bitlen b - 1)"
      using bitlen_powi_bounds(1) [OF b] b by (simp add: frac_le)
    also have "\<dots> = 2 powi (d + 1)"
      by (simp add: d_def power_int_diff power_int_add)
    finally show ?thesis .
  qed
  have il: "ilog2 x = (if 2 powi d \<le> x then d else d - 1)"
    by (simp add: ilog2_def q d_def Let_def)
  show "2 powi (ilog2 x) \<le> x" using lo by (simp add: il)
  show "x < 2 powi (ilog2 x + 1)" using hi by (auto simp add: il not_le)
qed

lemma floor_round_to_double_div:
  assumes a0: "0 \<le> a" and a53: "a < 2 ^ 53" and b: "0 < b"
  shows "\<lfloor>round_to_double (of_int a / of_int b)\<rfloor> = a div b"
proof (cases "a = 0")
  case True
  then show ?thesis by (simp add: round_to_double_def)
next
  case False
  define x :: rat where "x = of_int a / of_int b"
  define n where "n = a div b"
  from False a0 have apos: "0 < a" by simp
  then have xpos: "0 < x" using b by (simp add: x_def)
  define e where "e = max (ilog2 x) (- 1022)"
  define K :: int where "K = 2 ^ nat (52 - e)"
  have x53: "x < 2 ^ 53"
  proof -
    have "x \<le> of_int a" using b apos by (simp add: x_def divide_le_eq mult_le_cancel_left1)
    also have "\<dots> < 2 ^ 53" using a53 by (metis of_int_less_numeral_power_cancel_iff)
    finally show ?thesis .
  qed
  have e52: "e \<le> 52"
  proof -
    have "(2::rat) powi (ilog2 x) < 2 powi 53"
      using ilog2_bounds(1) [OF xpos] x53 by simp
    then have "ilog2 x < 53" by (rule power_int_le_imp_less_exp [rotated]) simp_all
    then show ?thesis by (simp add: e_def)
  qed
  have Kpos: "0 < K" by (simp add: K_def)
  have u: "(2::rat) powi (e - 52) = 1 / of_int K"
    using e52 by (simp add: K_def power_int_def nat_diff_distrib' inverse_eq_divide power_one_over)
  have xu: "x / (2 powi (e - 52)) = x * of_int K" by (simp add: u)
  define r where "r = round_half_even (x * of_int K)"
  have D: "round_to_double x = of_int r / of_int K"
    using xpos by (simp add: round_to_double_def e_def [symmetric] Let_def xu r_def u)
  have nfl: "n = \<lfloor>x\<rfloor>" by (simp add: n_def x_def floor_divide_of_int_eq)
  have nx1: "of_int n \<le> x" by (simp add: nfl)
  have nx2: "x \<le> of_int n + 1 - 1 / of_int b"
  proof -
    have "a mod b \<le> b - 1" using b by simp
    moreover have "a = n * b + a mod b" by (simp add: n_def)
    ultimately have "a \<le> n * b + b - 1" by linarith
    then have "(of_int a :: rat) \<le> of_int (n * b + b - 1)" by (simp only: of_int_le_iff)
    then have "(of_int a :: rat) \<le> (of_int n + 1 - 1 / of_int b) * of_int b"
      using b by (simp add: algebra_simps)
    then show ?thesis using b by (simp add: x_def pos_divide_le_eq)
  qed
  have low: "n * K \<le> r"
    unfolding r_def by (rule round_half_even_ge) (use nx1 Kpos in simp)
  have xK: "x * of_int K < of_int ((n + 1) * K) - 1 / 2"
  proof (cases "- 1022 \<le> ilog2 x")
    case True
    then have e: "e = ilog2 x" by (simp add: e_def)
    have "of_int b * (2::rat) powi e \<le> of_int a"
      using ilog2_bounds(1) [OF xpos] b by (simp add: e x_def pos_le_divide_eq mult.commute)
    also have "\<dots> < 2 ^ 53" using a53 by (metis of_int_less_numeral_power_cancel_iff)
    finally have "of_int b * (2::rat) powi e * 2 powi (52 - e) < 2 ^ 53 * 2 powi (52 - e)"
      by (simp add: mult_strict_right_mono)
    then have "(of_int b :: rat) * 2 ^ 52 < 2 ^ 53 * 2 powi (52 - e)"
      by (simp add: mult.assoc flip: power_int_add)
    moreover have "(2::rat) powi (52 - e) = of_int K" using e52 by (simp add: K_def power_int_def)
    ultimately have bK: "(of_int b :: rat) < 2 * of_int K" by simp
    have "x * of_int K \<le> (of_int n + 1 - 1 / of_int b) * of_int K"
      using nx2 Kpos by (simp add: mult_right_mono)
    also have "\<dots> = of_int ((n + 1) * K) - of_int K / of_int b" by (simp add: algebra_simps)
    also have "\<dots> < of_int ((n + 1) * K) - 1 / 2"
      using bK b by (simp add: pos_less_divide_eq)
    finally show ?thesis .
  next
    case False
    then have e: "e = - 1022" and il: "ilog2 x + 1 \<le> - 1022" by (simp_all add: e_def)
    have "x < 2 powi (ilog2 x + 1)" by (rule ilog2_bounds(2) [OF xpos])
    also have "\<dots> \<le> 2 powi (- 1022)" using il by (intro power_int_increasing) simp_all
    finally have x1: "x < 2 powi (- 1022)" .
    also have "\<dots> \<le> 2 powi 0" by (intro power_int_increasing) simp_all
    finally have "x < 1" by simp
    with xpos have "\<lfloor>x\<rfloor> = 0" by (simp add: floor_eq_iff)
    then have n0: "n = 0" by (simp add: nfl)
    have KK: "K = 2 ^ 1074" by (simp add: K_def e)
    from x1 have "x * of_int K < 2 powi (- 1022) * of_int K"
      using Kpos by (simp add: mult_strict_right_mono)
    also have "\<dots> = 2 powi (- 1022) * 2 powi 1074" by (simp add: KK)
    also have "\<dots> = 2 powi (- 1022 + 1074)" by (rule power_int_add [symmetric]) simp
    also have "\<dots> = 2 ^ 52" by simp
    also have "\<dots> \<le> of_int K - 1 / 2" by (simp add: KK)
    finally show ?thesis by (simp add: n0)
  qed
  have up: "r < (n + 1) * K"
    unfolding r_def by (rule round_half_even_less) (rule xK)
  from low have "(of_int (n * K) :: rat) \<le> of_int r" by (simp only: of_int_le_iff)
  with Kpos have "of_int n \<le> (of_int r :: rat) / of_int K"
    by (simp add: pos_le_divide_eq)
  moreover from up have "(of_int r :: rat) < of_int ((n + 1) * K)" by (simp only: of_int_less_iff)
  with Kpos have "(of_int r :: rat) / of_int K < of_int n + 1"
    by (simp add: pos_divide_less_eq)
  ultimately have "\<lfloor>round_to_double x\<rfloor> = n" by (simp add: D floor_eq_iff)
  then show ?thesis by (simp add: x_def n_def)
qed

lemma round_to_double_nonneg:
  assumes "0 \<le> x"
  shows "0 \<le> round_to_double x"
proof (cases "x = 0")
  case True
  then show ?thesis by (simp add: round_to_double_def)
next
  case False
  with assms have x: "0 < x" by simp
  have "(0::rat) \<le> of_int (round_half_even (x / 2 powi (max (ilog2 x) (- 1022) - 52)))"
    unfolding of_int_0_le_iff by (rule round_half_even_ge) (use x in simp)
  with x show ?thesis by (simp add: round_to_double_def Let_def)
qed

lemma py_truediv_nonneg:
  assumes "0 \<le> a" and "a < 2 ^ 53" and "0 < b"
  shows "py_truediv a b = Inr (PyFloat (round_to_double (of_int a / of_int b)))"
    and "py_int (PyFloat (round_to_double (of_int a / of_int b))) = a div b"
proof -
  let ?d = "round_to_double (of_int a / of_int b)"
  have nonneg: "0 \<le> ?d" using assms by (intro round_to_double_nonneg) simp
  have fl: "\<lfloor>?d\<rfloor> = a div b" by (rule floor_round_to_double_div [OF assms])
  have "a div b \<le> a" using zdiv_mono2 [of a 1 b] assms by simp
  with assms(2) have "\<lfloor>?d\<rfloor> + 1 \<le> 2 ^ 53" by (simp add: fl)
  then have "(of_int (\<lfloor>?d\<rfloor> + 1) :: rat) \<le> of_int (2 ^ 53)" by (simp only: of_int_le_iff)
  moreover have "?d < of_int (\<lfloor>?d\<rfloor> + 1)" by linarith
  ultimately have "?d < 2 ^ 53" by simp
  also have "\<dots> < (2 ^ 1024 :: rat)" by simp
  finally have "\<not> 2 ^ 1024 \<le> \<bar>?d\<bar>" using nonneg by simp
  then show "py_truediv a b = Inr (PyFloat ?d)"
    using assms(3) by (simp add: py_truediv_def py_float_def Let_def)
  show "py_int (PyFloat ?d) = a div b" using nonneg fl by simp
qed

lemma py_truediv_is_float:
  assumes "py_truediv a b = Inr q"
  shows "\<exists>x. q = PyFloat x"
  using assms by (auto simp: py_truediv_def py_float_def Let_def split: if_splits)

lemma round_half_even_of_int [simp]: "round_half_even (of_int m) = m"
  by (simp add: round_half_even_def)

lemma round_to_double_of_int:
  assumes "0 \<le> k" and "k < 2 ^ 53"
  shows "round_to_double (of_int k) = of_int k"
proof (cases "k = 0")
  case True
  then show ?thesis by (simp add: round_to_double_def)
next
  case False
  define x :: rat where "x = of_int k"
  from False assms have xpos: "0 < x" by (simp add: x_def)
  define e where "e = max (ilog2 x) (- 1022)"
  define K :: int where "K = 2 ^ nat (52 - e)"
  have x53: "x < 2 ^ 53" unfolding x_def using assms(2) by (metis of_int_less_numeral_power_cancel_iff)
  have e52: "e \<le> 52"
  proof -
    have "(2::rat) powi (ilog2 x) < 2 powi 53"
      using ilog2_bounds(1) [OF xpos] x53 by simp
    then have "ilog2 x < 53" by (rule power_int_le_imp_less_exp [rotated]) simp_all
    then show ?thesis by (simp add: e_def)
  qed
  have Kpos: "0 < K" by (simp add: K_def)
  have u: "(2::rat) powi (e - 52) = 1 / of_int K"
    using e52 by (simp add: K_def power_int_def nat_diff_distrib' inverse_eq_divide power_one_over)
  have "x * of_int K = of_int (k * K)" by (simp add: x_def)
  then have "round_half_even (x * of_int K) = k * K" by (simp only: round_half_even_of_int)
  then have "round_to_double x = of_int (k * K) / of_int K"
    using xpos by (simp add: round_to_double_def e_def [symmetric] Let_def u)
  then show ?thesis using Kpos by (simp add: x_def)
qed

lemma round_to_double_numeral [simp]:
  "numeral n < (2 ^ 53 :: int) \<Longrightarrow> round_to_double (numeral n) = numeral n"
  using round_to_double_of_int [of "numeral n"] by simp

lemma round_to_double_0 [simp]: "round_to_double 0 = 0"
  by (simp add: round_to_double_def)

lemma round_to_double_1 [simp]: "round_to_double 1 = 1"
  using round_to_double_of_int [of 1] by simp

lemma py_float_small:
  assumes "\<bar>round_to_double x\<bar> < 2 ^ 53"
  shows "py_float x = Inr (PyFloat (round_to_double x))"
proof -
  have "\<bar>round_to_double x\<bar> < 2 ^ 1024" using assms by (rule less_trans) simp
  then show ?thesis by (simp add: py_float_def Let_def)
qed

subsection \<open>Lists and results\<close>

lemma py_index_Nil [simp]: "py_index [] i = Inl IndexError"
  by (simp add: py_index_def)

lemma py_index_first [simp]: "xs \<noteq> [] \<Longrightarrow> py_index xs 0 = Inr (hd xs)"
  by (cases xs) (simp_all add: py_index_def)

lemma py_index_last [simp]: "xs \<noteq> [] \<Longrightarrow> py_index xs (- 1) = Inr (last xs)"
  by (cases xs rule: rev_cases) (simp_all add: py_index_def nth_append)

lemma bind_err_eq_Inr: "bind_err m f = Inr y \<longleftrightarrow> (\<exists>x. m = Inr x \<and> f x = Inr y)"
  by (cases m) simp_all

lemma append_increments_eq:
  assumes "hr \<noteq> []"
  shows "append_increments W l is hr = hr @ map (\<lambda>i. (l + W * (i + 1), snd (last hr))) is"
  using assms by (induction "is" arbitrary: hr) simp_all

lemma py_del_prefix_neg:
  assumes "0 < N"
  shows "py_del_prefix xs (- N) = drop (length xs - nat N) xs"
proof -
  have "nat (max 0 (int (length xs) - N)) = length xs - nat N" using assms by linarith
  with assms show ?thesis by (simp add: py_del_prefix_def Let_def)
qed

lemma map_upto_shift:
  "map (\<lambda>i. f (i + c)) [a..b] = map f [a + c..b + c]"
  by (rule nth_equalityI) (simp_all add: nth_upto algebra_simps)

lemma delete_chronological_block_windows_ok:
  assumes "\<forall>i\<in>set ws. 0 \<le> i \<and> i < 2 ^ 256 \<and> i mod W = 0"
  shows "\<exists>s'. delete_chronological_block_windows W ws s = Inr s'
     \<and> historical_head_root (db s') = historical_head_root (db s)"
  using assms
proof (induction ws arbitrary: s)
  case Nil
  then show ?case by simp
next
  case (Cons i ws)
  then have i: "0 \<le> i" "i < 2 ^ 256" "i mod W = 0" by simp_all
  define s1 where "s1 = s\<lparr>db := (db s)\<lparr>chronological_window :=
                 (chronological_window (db s))(i := None)\<rparr>\<rparr>"
  have d: "delete_chronological_block_window W i s = Inr s1"
    using i by (simp add: delete_chronological_block_window_def validate_uint256_def s1_def)
  from Cons.prems have "\<forall>i\<in>set ws. 0 \<le> i \<and> i < 2 ^ 256 \<and> i mod W = 0" by simp
  from Cons.IH [OF this, of s1] d show ?case by (simp add: s1_def)
qed

lemma py_range_step_pos:
  assumes "0 < W"
  shows "\<exists>ws. py_range_step a b W = Inr ws \<and> (\<forall>i\<in>set ws. a \<le> i \<and> i < b \<and> (i - a) mod W = 0)"
proof -
  let ?n = "nat ((b - a + W - 1) div W)"
  have "a + W * int k < b" if "k < ?n" for k
  proof -
    from that have "int k + 1 \<le> (b - a + W - 1) div W" by linarith
    then have "W * (int k + 1) \<le> W * ((b - a + W - 1) div W)"
      using assms by (simp add: mult_left_mono)
    also have "\<dots> \<le> b - a + W - 1"
      using assms mult_div_mod_eq [of W "b - a + W - 1"] pos_mod_sign [of W "b - a + W - 1"]
      by linarith
    finally show ?thesis by (simp add: algebra_simps)
  qed
  with assms show ?thesis by (auto simp: py_range_step_def)
qed


lemma aligned_below_next_window:
  fixes W :: int
  assumes "0 < W" and "i mod W = 0" and "i < (n + 1) * W"
  shows "i \<le> n * W"
proof -
  from assms(2) have "i = (i div W) * W" using div_mult_mod_eq [of i W] by simp
  with assms(3) have "(i div W) * W < (n + 1) * W" by simp
  with assms(1) have "i div W < n + 1" by (simp add: mult_less_cancel_right_pos)
  then have "(i div W) * W \<le> n * W" using assms(1) by (simp add: mult_right_mono)
  with \<open>i = (i div W) * W\<close> show ?thesis by simp
qed

lemma length_addr [simp]: "length addr_A = 20" "length addr_B = 20"
  by (simp_all add: addr_A_def addr_B_def)

subsection \<open>Reading and writing through one handle\<close>

lemma set_chain_head_hash_Inr:
  assumes "set_chain_head_hash address head_hash self = Inr self1"
  shows "length address = 20" and "trie_readable self"
    and "self1 = self\<lparr>root_hash := (root_hash self)(address \<mapsto> head_hash),
            batchtrie := insert ((root_hash self)(address \<mapsto> head_hash)) (batchtrie self),
            trie_cache := (trie_cache self)(address \<mapsto> Some head_hash)\<rparr>"
  using assms
  by (auto simp: set_chain_head_hash_def validate_canonical_address_def validate_is_bytes_def
      cache_set_def trie_set_def trie_readable_def Let_def split: if_splits)

lemma set_chain_head_hash_readable:
  assumes "length address = 20" and "trie_readable self"
  shows "set_chain_head_hash address head_hash self =
     Inr (self\<lparr>root_hash := (root_hash self)(address \<mapsto> head_hash),
            batchtrie := insert ((root_hash self)(address \<mapsto> head_hash)) (batchtrie self),
            trie_cache := (trie_cache self)(address \<mapsto> Some head_hash)\<rparr>)"
  using assms
  by (auto simp: set_chain_head_hash_def validate_canonical_address_def validate_is_bytes_def
      cache_set_def trie_set_def trie_readable_def Let_def split: if_splits)

lemma trie_readable_init_blank [simp]: "trie_readable (ChainHeadDB_init store BLANK_HASH)"
  by (simp add: trie_readable_def ChainHeadDB_init_def)


text \<open>
  Claim C8. After \<open>set_chain_head_hash address head_hash\<close> has returned on a handle,
  \<open>get_chain_head_hash address\<close> on the resulting handle returns \<open>head_hash\<close>, and the
  store behind the handle is the one from before the write: nothing has been
  persisted.
\<close>

theorem get_chain_head_hash_after_set:
  assumes "set_chain_head_hash address head_hash self = Inr self1"
  shows "db self1 = db self
    \<and> (\<exists>self2. get_chain_head_hash address self1 = Inr (Some head_hash, self2))"
  using set_chain_head_hash_Inr [OF assms]
  by (simp add: get_chain_head_hash_def validate_canonical_address_def cache_get_def)

theorem get_chain_head_hash_after_set_witness:
  "\<exists>s1. set_chain_head_hash addr_A hash_H1 (ChainHeadDB_init empty_store BLANK_HASH) = Inr s1
     \<and> db s1 = db (ChainHeadDB_init empty_store BLANK_HASH)
     \<and> (\<exists>s2. get_chain_head_hash addr_A s1 = Inr (Some hash_H1, s2))"
proof -
  obtain s1 where
    s1: "set_chain_head_hash addr_A hash_H1 (ChainHeadDB_init empty_store BLANK_HASH) = Inr s1"
    by (simp add: set_chain_head_hash_readable)
  from get_chain_head_hash_after_set [OF s1] s1 show ?thesis by blast
qed

subsection \<open>Timestamps that are too old for the chronological windows\<close>

text \<open>
  Claim C9. For a timestamp in \<open>[0, 2\<^sup>2\<^sup>5\<^sup>6)\<close> that is at most \<open>now - N * W\<close>,
  \<open>add_block_hash_to_chronological_window\<close> returns without an error and leaves the
  handle, and with it the whole store, as it was.
\<close>

theorem add_block_hash_to_chronological_window_too_old:
  assumes "0 \<le> timestamp" and "timestamp < 2 ^ 256" and "timestamp \<le> now - N * W"
  shows "add_block_hash_to_chronological_window W N now head_hash timestamp self = Inr self"
  using assms
  by (simp add: add_block_hash_to_chronological_window_def validate_is_bytes_def
      validate_uint256_def)

theorem add_block_hash_to_chronological_window_too_old_witness:
  "add_block_hash_to_chronological_window 1000 4 10000 hash_H1 6000
     (ChainHeadDB_init empty_store BLANK_HASH) = Inr (ChainHeadDB_init empty_store BLANK_HASH)"
  using add_block_hash_to_chronological_window_too_old
    [of 6000 10000 4 1000 hash_H1 "ChainHeadDB_init empty_store BLANK_HASH"]
  by simp

subsection \<open>Rolling the historical root hashes over\<close>

text \<open>
  The branch of \<open>append_current_root_hash_to_historical\<close> for a ring that is neither in
  the current window nor older than the retention.
\<close>

lemma append_current_root_hash_to_historical_else_branch:
  assumes W: "0 < W" and N: "0 < N" and now: "0 \<le> now" "now < 2 ^ 53"
    and ring: "get_historical_root_hashes self = Some hr" "hr \<noteq> []"
    and wf: "sorted (map fst hr)" "\<forall>e\<in>set hr. 0 \<le> fst e \<and> fst e mod W = 0"
    and le: "fst (last hr) \<le> (now div W) * W"
    and ge: "now - N * W \<le> fst (last hr)"
  shows "\<exists>self'. append_current_root_hash_to_historical W N now self = Inr self'
     \<and> get_historical_root_hashes self' = Some
         (let appended = hr @ map (\<lambda>j. (j * W, snd (last hr))) [fst (last hr) div W + 1..now div W]
                           @ [((now div W) * W + W, root_hash self)]
          in drop (length appended - nat N) appended)"
proof -
  define lfw where "lfw = (now div W) * W"
  define latest where "latest = fst (last hr)"
  define r where "r = snd (last hr)"
  define k where "k = (lfw - latest) div W"
  have lfw_now: "lfw \<le> now"
    unfolding lfw_def using W div_mult_mod_eq [of now W] pos_mod_sign [of W now] by linarith
  from ring(2) have "last hr \<in> set hr" by simp
  with wf(2) have latest: "0 \<le> latest" "latest mod W = 0" by (simp_all add: latest_def)
  from ring(2) have "hd hr \<in> set hr" by simp
  with wf(2) have first: "0 \<le> fst (hd hr)" "fst (hd hr) mod W = 0" by simp_all
  from py_truediv_nonneg [OF now W]
  obtain q where q: "py_truediv now W = Inr q" "py_int q * W = lfw" by (simp add: lfw_def)
  have d: "0 \<le> lfw - latest" "lfw - latest < 2 ^ 53"
    using le latest(1) lfw_now now(2) by (simp_all add: lfw_def latest_def)
  from py_truediv_nonneg [OF d W]
  obtain q2 where q2: "py_truediv (lfw - latest) W = Inr q2" "py_int q2 = k" by (simp add: k_def)
  have lat: "latest = (latest div W) * W" using latest(2) div_mult_mod_eq [of latest W] by simp
  have "lfw - latest = (now div W - latest div W) * W"
    by (subst lat) (simp add: lfw_def algebra_simps)
  then have k: "k = now div W - latest div W" using W by (simp add: k_def)
  have synth: "map (\<lambda>i. (latest + W * (i + 1), r)) [0..k - 1]
                 = map (\<lambda>j. (j * W, r)) [latest div W + 1..now div W]"
  proof -
    have "map (\<lambda>i. (latest + W * (i + 1), r)) [0..k - 1]
            = map (\<lambda>i. ((i + (latest div W + 1)) * W, r)) [0..k - 1]"
      by (subst lat) (simp add: algebra_simps)
    also have "\<dots> = map (\<lambda>j. (j * W, r)) [0 + (latest div W + 1)..k - 1 + (latest div W + 1)]"
      by (rule map_upto_shift)
    finally show ?thesis by (simp add: k)
  qed
  define appended where "appended = hr @ map (\<lambda>j. (j * W, r)) [latest div W + 1..now div W]
                           @ [(lfw + W, root_hash self)]"
  define trimmed where "trimmed = drop (length appended - nat N) appended"
  have "length appended - nat N < length appended" using N by (simp add: appended_def)
  then have tne: "trimmed \<noteq> []" by (simp add: trimmed_def)
  then have "hd trimmed \<in> set trimmed" by simp
  then have hd_in: "hd trimmed \<in> set appended" unfolding trimmed_def by (rule in_set_dropD)
  have stop: "fst (hd trimmed) \<le> lfw + W"
  proof -
    have a: "fst e \<le> lfw + W" if "e \<in> set hr" for e
    proof -
      from that obtain n where n: "n < length hr" "e = hr ! n" by (auto simp: in_set_conv_nth)
      then have "map fst hr ! n \<le> map fst hr ! (length hr - 1)"
        using wf(1) by (intro sorted_nth_mono) simp_all
      with n ring(2) have "fst e \<le> fst (last hr)" by (simp add: last_conv_nth)
      with le W show ?thesis by (simp add: lfw_def)
    qed
    have b: "j * W \<le> lfw + W" if "j \<le> now div W" for j
      using that W by (simp add: lfw_def mult_right_mono add_increasing2)
    have "\<forall>e\<in>set appended. fst e \<le> lfw + W"
      using a b by (auto simp: appended_def)
    with hd_in show ?thesis by blast
  qed
  from py_range_step_pos [OF W, of "fst (hd hr)" "fst (hd trimmed)"]
  obtain ws where ws: "py_range_step (fst (hd hr)) (fst (hd trimmed)) W = Inr ws"
    and ws_el: "\<forall>i\<in>set ws. fst (hd hr) \<le> i \<and> i < fst (hd trimmed) \<and> (i - fst (hd hr)) mod W = 0"
    by blast
  have ok: "\<forall>i\<in>set ws. 0 \<le> i \<and> i < 2 ^ 256 \<and> i mod W = 0"
  proof
    fix i assume "i \<in> set ws"
    with ws_el have i: "fst (hd hr) \<le> i" "i < fst (hd trimmed)" "(i - fst (hd hr)) mod W = 0"
      by simp_all
    from i(3) first(2) have al: "i mod W = 0" by (metis mod_0_imp_dvd dvd_diffD dvd_imp_mod_0 dvd_minus_self diff_add_cancel dvd_add)
    from i(2) stop have "i < (now div W + 1) * W" by (simp add: lfw_def algebra_simps)
    from aligned_below_next_window [OF W al this] lfw_now have "i \<le> now" by (simp add: lfw_def)
    also have "now < 2 ^ 256" using now(2) by (rule less_trans) simp
    finally show "0 \<le> i \<and> i < 2 ^ 256 \<and> i mod W = 0" using al i(1) first(1) by simp
  qed
  from delete_chronological_block_windows_ok [OF ok,
      of "save_historical_root_hashes trimmed self"]
  obtain s' where s': "delete_chronological_block_windows W ws
        (save_historical_root_hashes trimmed self) = Inr s'"
    and hist: "historical_head_root (db s') = Some trimmed"
    by (auto simp: save_historical_root_hashes_def)
  have tr: "py_del_prefix (append_increments W latest [0..k - 1] hr @ [(lfw + W, root_hash self)])
              (- N) = trimmed"
  proof -
    have "append_increments W latest [0..k - 1] hr @ [(lfw + W, root_hash self)] = appended"
      using ring(2) by (simp add: append_increments_eq synth appended_def flip: r_def)
    then show ?thesis using N by (simp only: py_del_prefix_neg trimmed_def)
  qed
  have br: "\<not> latest > lfw" "\<not> latest < now - N * W"
    using le ge by (simp_all add: latest_def lfw_def)
  have "append_current_root_hash_to_historical W N now self = Inr s'"
    unfolding append_current_root_hash_to_historical_def
    using ring br W N tne ws s'
    by (simp add: q Let_def latest_def [symmetric] q2 tr)
  with hist show ?thesis
    by (auto simp: get_historical_root_hashes_def Let_def trimmed_def appended_def lfw_def
        latest_def r_def)
qed

subsection \<open>What the rollover leaves untouched\<close>

lemma delete_chronological_block_window_frame:
  assumes "delete_chronological_block_window W i s = Inr s'"
  shows "current_head_root (db s') = current_head_root (db s)
    \<and> trie_nodes (db s') = trie_nodes (db s)
    \<and> historical_head_root (db s') = historical_head_root (db s)
    \<and> root_hash s' = root_hash s \<and> batchtrie s' = batchtrie s \<and> trie_cache s' = trie_cache s"
  using assms
  by (auto simp: delete_chronological_block_window_def bind_err_eq_Inr split: if_splits)

lemma delete_chronological_block_windows_frame:
  assumes "delete_chronological_block_windows W ws s = Inr s'"
  shows "current_head_root (db s') = current_head_root (db s)
    \<and> trie_nodes (db s') = trie_nodes (db s)
    \<and> historical_head_root (db s') = historical_head_root (db s)
    \<and> root_hash s' = root_hash s \<and> batchtrie s' = batchtrie s \<and> trie_cache s' = trie_cache s"
  using assms
proof (induction ws arbitrary: s)
  case Nil
  then show ?case by simp
next
  case (Cons i ws)
  from Cons.prems obtain s1 where s1: "delete_chronological_block_window W i s = Inr s1"
    and rest: "delete_chronological_block_windows W ws s1 = Inr s'"
    by (auto simp: bind_err_eq_Inr)
  from Cons.IH [OF rest] delete_chronological_block_window_frame [OF s1]
  show ?case by simp
qed

lemma append_current_root_hash_to_historical_frame:
  assumes "append_current_root_hash_to_historical W N now s = Inr s'"
  shows "current_head_root (db s') = current_head_root (db s)
    \<and> trie_nodes (db s') = trie_nodes (db s)
    \<and> root_hash s' = root_hash s \<and> batchtrie s' = batchtrie s \<and> trie_cache s' = trie_cache s"
  using assms
  by (auto simp: append_current_root_hash_to_historical_def bind_err_eq_Inr Let_def
      save_historical_root_hashes_def
      split: option.splits if_splits dest!: delete_chronological_block_windows_frame)

subsection \<open>The normal rollover\<close>

text \<open>
  Claim C4. The normal rollover: the ring is not empty, its latest window is at most
  the last finished window \<open>(now div W) * W\<close> and not older than \<open>now - N * W\<close>. Then
  \<open>append_current_root_hash_to_historical\<close> builds the old ring, followed by one entry
  for each window \<open>latest + W\<close>, \<open>latest + 2 * W\<close>, ... up to the last finished window,
  each with the root of the old ring's last entry, followed by the current window with
  the root of the handle; it cuts this list from the front to its last \<open>N\<close> entries,
  saves it, and then deletes the chronological block windows from the old first
  window up to the new one. So a call that returns has saved exactly this ring, and a
  call can only raise from the deletion that follows the saving. It returns whenever
  the windows of the old ring are non-negative multiples of \<open>W\<close> in ascending order.
  The clock and \<open>N * W\<close> are below \<open>2\<^sup>5\<^sup>3\<close>.
\<close>

theorem append_current_root_hash_to_historical_rollover:
  assumes W: "0 < W" and N: "0 < N" and now: "0 \<le> now" "now < 2 ^ 53" and NW: "N * W < 2 ^ 53"
    and ring: "get_historical_root_hashes self = Some hr" "hr \<noteq> []"
    and le: "fst (last hr) \<le> (now div W) * W"
    and ge: "now - N * W \<le> fst (last hr)"
  shows "(let last_finished_window = (now div W) * W;
              latest_time = fst (last hr);
              appended = hr @ map (\<lambda>i. (latest_time + W * i, snd (last hr)))
                                [1..(last_finished_window - latest_time) div W]
                            @ [(last_finished_window + W, root_hash self)];
              trimmed = drop (length appended - nat N) appended
          in append_current_root_hash_to_historical W N now self =
               bind_err (py_range_step (fst (hd hr)) (fst (hd trimmed)) W)
                 (\<lambda>ws. delete_chronological_block_windows W ws
                         (save_historical_root_hashes trimmed self))
           \<and> (append_current_root_hash_to_historical W N now self = Inr self'
                \<longrightarrow> get_historical_root_hashes self' = Some trimmed)
           \<and> (sorted (map fst hr) \<and> (\<forall>e\<in>set hr. 0 \<le> fst e \<and> fst e mod W = 0)
                \<longrightarrow> (\<exists>s. append_current_root_hash_to_historical W N now self = Inr s)))"
proof -
  define lfw where "lfw = (now div W) * W"
  define latest where "latest = fst (last hr)"
  define r where "r = snd (last hr)"
  define k where "k = (lfw - latest) div W"
  define appended where "appended = hr @ map (\<lambda>i. (latest + W * i, r)) [1..k]
                           @ [(lfw + W, root_hash self)]"
  define trimmed where "trimmed = drop (length appended - nat N) appended"
  have lfw_now: "lfw \<le> now"
    unfolding lfw_def using W div_mult_mod_eq [of now W] pos_mod_sign [of W now] by linarith
  from py_truediv_nonneg [OF now W]
  obtain q where q: "py_truediv now W = Inr q" "py_int q * W = lfw" by (simp add: lfw_def)
  have d: "0 \<le> lfw - latest" "lfw - latest < 2 ^ 53"
    using le ge lfw_now NW by (simp_all add: lfw_def latest_def)
  from py_truediv_nonneg [OF d W]
  obtain q2 where q2: "py_truediv (lfw - latest) W = Inr q2" "py_int q2 = k" by (simp add: k_def)
  have synth: "map (\<lambda>i. (latest + W * (i + 1), r)) [0..k - 1] = map (\<lambda>i. (latest + W * i, r)) [1..k]"
    using map_upto_shift [of "\<lambda>i. (latest + W * i, r)" 1 0 "k - 1"] by simp
  have "length appended - nat N < length appended" using N by (simp add: appended_def)
  then have tne: "trimmed \<noteq> []" by (simp add: trimmed_def)
  have tr: "py_del_prefix (append_increments W latest [0..k - 1] hr @ [(lfw + W, root_hash self)])
              (- N) = trimmed"
  proof -
    have "append_increments W latest [0..k - 1] hr @ [(lfw + W, root_hash self)] = appended"
      using ring(2) by (simp add: append_increments_eq synth appended_def flip: r_def)
    then show ?thesis using N by (simp only: py_del_prefix_neg trimmed_def)
  qed
  have br: "\<not> latest > lfw" "\<not> latest < now - N * W"
    using le ge by (simp_all add: latest_def lfw_def)
  have eq: "append_current_root_hash_to_historical W N now self =
               bind_err (py_range_step (fst (hd hr)) (fst (hd trimmed)) W)
                 (\<lambda>ws. delete_chronological_block_windows W ws
                         (save_historical_root_hashes trimmed self))"
    unfolding append_current_root_hash_to_historical_def
    using ring br W N tne
    by (simp add: q Let_def latest_def [symmetric] q2 tr)
  have ret: "get_historical_root_hashes self' = Some trimmed"
    if "append_current_root_hash_to_historical W N now self = Inr self'"
  proof -
    from that eq obtain ws where
      "delete_chronological_block_windows W ws (save_historical_root_hashes trimmed self) = Inr self'"
      by (auto simp: bind_err_eq_Inr)
    from delete_chronological_block_windows_frame [OF this] show ?thesis
      by (simp add: get_historical_root_hashes_def save_historical_root_hashes_def)
  qed
  have ok: "\<exists>s. append_current_root_hash_to_historical W N now self = Inr s"
    if "sorted (map fst hr)" "\<forall>e\<in>set hr. 0 \<le> fst e \<and> fst e mod W = 0"
    using append_current_root_hash_to_historical_else_branch [OF W N now ring that le ge]
    by blast
  from eq ret ok show ?thesis
    by (simp add: Let_def lfw_def latest_def r_def k_def appended_def trimmed_def)
qed


theorem append_current_root_hash_to_historical_rollover_witness:
  "(\<exists>s1 s2.
     set_chain_head_hash addr_B hash_H2
       (ChainHeadDB_init (store_with_ring [(11000, root_R0)]) root_R0) = Inr s1
     \<and> persist 1000 4 12500 True s1 = Inr s2
     \<and> get_historical_root_hashes s2 =
         Some [(11000, root_R0), (12000, root_R0), (13000, root_R0(addr_B \<mapsto> hash_H2))])
   \<and> append_current_root_hash_to_historical 1000 4 13000
        (ChainHeadDB_init (store_with_ring
           [(6500, root_R0), (7500, root_R0), (8500, root_R0), (9500, root_R0), (11000, root_R0)])
           root_R0)
      = bind_err (py_range_step 6500 11000 1000)
          (\<lambda>ws. delete_chronological_block_windows 1000 ws
             (save_historical_root_hashes
                [(11000, root_R0), (12000, root_R0), (13000, root_R0), (14000, root_R0)]
                (ChainHeadDB_init (store_with_ring
                   [(6500, root_R0), (7500, root_R0), (8500, root_R0), (9500, root_R0),
                    (11000, root_R0)]) root_R0)))
   \<and> append_current_root_hash_to_historical 1000 4 13000
        (ChainHeadDB_init (store_with_ring
           [(6500, root_R0), (7500, root_R0), (8500, root_R0), (9500, root_R0), (11000, root_R0)])
           root_R0)
      = Inl InvalidHeadRootTimestamp"
proof -
  let ?h0 = "ChainHeadDB_init (store_with_ring [(11000, root_R0)]) root_R0"
  have rd: "trie_readable ?h0"
    by (simp add: trie_readable_def ChainHeadDB_init_def store_with_ring_def)
  obtain s1 where set: "set_chain_head_hash addr_B hash_H2 ?h0 = Inr s1"
    using rd by (simp add: set_chain_head_hash_readable)
  note s1 = set_chain_head_hash_Inr(3) [OF set]
  define c where "c = (batch_commit s1)\<lparr>db := (db (batch_commit s1))
                   \<lparr>current_head_root := Some (root_hash (batch_commit s1))\<rparr>\<rparr>"
  have p: "persist 1000 4 12500 True s1 = append_current_root_hash_to_historical 1000 4 12500 c"
    by (simp add: persist_def save_current_root_hash_def c_def Let_def)
  have s1_db: "db s1 = store_with_ring [(11000, root_R0)]"
    and s1_root: "root_hash s1 = root_R0(addr_B \<mapsto> hash_H2)"
    by (subst s1, simp add: ChainHeadDB_init_def)+
  have ring: "get_historical_root_hashes c = Some [(11000, root_R0)]"
    by (simp add: c_def batch_commit_def get_historical_root_hashes_def s1_db
        store_with_ring_def)
  have rh: "root_hash c = root_R0(addr_B \<mapsto> hash_H2)"
    by (simp add: c_def batch_commit_def s1_root)
  from append_current_root_hash_to_historical_rollover [of 1000 4 12500 c "[(11000, root_R0)]", OF _ _ _ _ _ ring]
  have "\<exists>s. append_current_root_hash_to_historical 1000 4 12500 c = Inr s"
    by (simp add: Let_def, metis)
  then obtain s2 where s2: "append_current_root_hash_to_historical 1000 4 12500 c = Inr s2"
    by blast
  from append_current_root_hash_to_historical_rollover [of 1000 4 12500 c "[(11000, root_R0)]" s2, OF _ _ _ _ _ ring] s2
  have "get_historical_root_hashes s2 =
         Some [(11000, root_R0), (12000, root_R0), (13000, root_R0(addr_B \<mapsto> hash_H2))]"
    by (simp add: rh Let_def)
  with set p s2 have first: "\<exists>s1 s2.
     set_chain_head_hash addr_B hash_H2 ?h0 = Inr s1
     \<and> persist 1000 4 12500 True s1 = Inr s2
     \<and> get_historical_root_hashes s2 =
         Some [(11000, root_R0), (12000, root_R0), (13000, root_R0(addr_B \<mapsto> hash_H2))]"
    by auto
  let ?h = "ChainHeadDB_init (store_with_ring
           [(6500, root_R0), (7500, root_R0), (8500, root_R0), (9500, root_R0), (11000, root_R0)])
           root_R0"
  have ring2: "get_historical_root_hashes ?h =
      Some [(6500, root_R0), (7500, root_R0), (8500, root_R0), (9500, root_R0), (11000, root_R0)]"
    by (simp add: get_historical_root_hashes_def ChainHeadDB_init_def store_with_ring_def)
  have rh2: "root_hash ?h = root_R0" by (simp add: ChainHeadDB_init_def)
  from append_current_root_hash_to_historical_rollover [of 1000 4 13000 ?h _ undefined, OF _ _ _ _ _ ring2]
  have eq: "append_current_root_hash_to_historical 1000 4 13000 ?h
      = bind_err (py_range_step 6500 11000 1000)
          (\<lambda>ws. delete_chronological_block_windows 1000 ws
             (save_historical_root_hashes
                [(11000, root_R0), (12000, root_R0), (13000, root_R0), (14000, root_R0)] ?h))"
    by (simp add: Let_def rh2 upto_rec1)
  have "bind_err (py_range_step 6500 11000 1000)
          (\<lambda>ws. delete_chronological_block_windows 1000 ws
             (save_historical_root_hashes
                [(11000, root_R0), (12000, root_R0), (13000, root_R0), (14000, root_R0)] ?h))
        = Inl InvalidHeadRootTimestamp"
    by (simp add: py_range_step_def upt_rec delete_chronological_block_window_def
        validate_uint256_def)
  with eq first show ?thesis by simp
qed

subsection \<open>The invariant and the branches of the rollover\<close>

text \<open>
  With a ring whose windows are non-negative multiples of \<open>W\<close>, the branches for no
  ring, for a ring in the current window and for the normal rollover keep the
  invariant; the branch for a ring older than the retention never does.
\<close>

lemma ring_spaced_iff:
  "ring_spaced W ws \<longleftrightarrow> (\<forall>i. Suc i < length ws \<longrightarrow> ws ! Suc i = ws ! i + W)"
proof (induction W ws rule: ring_spaced.induct)
  case (1 W w w' ws)
  show ?case
  proof
    assume a: "ring_spaced W (w # w' # ws)"
    with 1 have h: "w' = w + W" "\<forall>i. Suc i < length (w' # ws) \<longrightarrow> (w' # ws) ! Suc i = (w' # ws) ! i + W"
      by simp_all
    show "\<forall>i. Suc i < length (w # w' # ws) \<longrightarrow> (w # w' # ws) ! Suc i = (w # w' # ws) ! i + W"
    proof (intro allI impI)
      fix i assume "Suc i < length (w # w' # ws)"
      then show "(w # w' # ws) ! Suc i = (w # w' # ws) ! i + W"
        using h by (cases i) simp_all
    qed
  next
    assume a: "\<forall>i. Suc i < length (w # w' # ws) \<longrightarrow> (w # w' # ws) ! Suc i = (w # w' # ws) ! i + W"
    from a [rule_format, of 0] have "w' = w + W" by simp
    moreover have "\<forall>i. Suc i < length (w' # ws) \<longrightarrow> (w' # ws) ! Suc i = (w' # ws) ! i + W"
    proof (intro allI impI)
      fix i assume "Suc i < length (w' # ws)"
      with a [rule_format, of "Suc i"] show "(w' # ws) ! Suc i = (w' # ws) ! i + W" by simp
    qed
    ultimately show "ring_spaced W (w # w' # ws)" using 1 by simp
  qed
qed simp_all

lemma ring_spaced_nth:
  assumes "ring_spaced W ws" and "i < length ws"
  shows "ws ! i = ws ! 0 + W * int i"
  using assms(2)
proof (induction i)
  case 0
  then show ?case by simp
next
  case (Suc i)
  with assms(1) have "ws ! Suc i = ws ! i + W" by (simp add: ring_spaced_iff)
  with Suc show ?case by (simp add: algebra_simps)
qed

lemma ring_spaced_sorted:
  assumes "0 < W" and "ring_spaced W ws"
  shows "sorted_wrt (<) ws"
proof -
  have "ws ! i < ws ! j" if "i < j" "j < length ws" for i j
  proof -
    from that have "ws ! i = ws ! 0 + W * int i" "ws ! j = ws ! 0 + W * int j"
      using assms(2) by (simp_all add: ring_spaced_nth)
    with that(1) assms(1) show ?thesis by simp
  qed
  then show ?thesis by (simp add: sorted_wrt_iff_nth_less)
qed

lemma ring_spaced_drop:
  assumes "ring_spaced W ws"
  shows "ring_spaced W (drop n ws)"
  using assms by (auto simp: ring_spaced_iff add.commute)

lemma ring_spaced_snoc:
  "ring_spaced W (ws @ [a, b]) \<longleftrightarrow> ring_spaced W (ws @ [a]) \<and> b = a + W"
  by (induction W ws rule: ring_spaced.induct) auto

lemma ring_spaced_progression:
  "ring_spaced W (map (\<lambda>j. j * W) [a..b])"
  by (auto simp: ring_spaced_iff nth_upto algebra_simps)

lemma ring_spaced_append:
  assumes "ring_spaced W xs" and "ring_spaced W ys" and "xs \<noteq> []" and "ys \<noteq> []"
    and "hd ys = last xs + W"
  shows "ring_spaced W (xs @ ys)"
  unfolding ring_spaced_iff
proof (intro allI impI)
  fix i assume i: "Suc i < length (xs @ ys)"
  consider "Suc i < length xs" | "Suc i = length xs" | "length xs < Suc i" by linarith
  then show "(xs @ ys) ! Suc i = (xs @ ys) ! i + W"
  proof cases
    case 1
    with assms(1) show ?thesis by (simp add: ring_spaced_iff nth_append)
  next
    case 2
    then have "(xs @ ys) ! Suc i = hd ys" using assms(4) by (simp add: nth_append hd_conv_nth)
    moreover from 2 have "(xs @ ys) ! i = last xs"
      using assms(3) by (simp add: nth_append last_conv_nth flip: 2)
    ultimately show ?thesis using assms(5) by simp
  next
    case 3
    then obtain k where k: "i = length xs + k" by (metis less_Suc_eq_le le_iff_add)
    with i have "Suc k < length ys" by simp
    with assms(2) have "ys ! Suc k = ys ! k + W" by (simp add: ring_spaced_iff)
    with k show ?thesis by (simp add: nth_append)
  qed
qed


lemma append_current_root_hash_to_historical_first:
  assumes "0 < W" and "0 \<le> N" and "0 \<le> now" and "now < 2 ^ 53"
    and "get_historical_root_hashes self = None"
  shows "\<exists>self' ring. append_current_root_hash_to_historical W N now self = Inr self'
     \<and> get_historical_root_hashes self' = Some ring \<and> ring_invariant W N ring"
proof -
  from py_truediv_nonneg [OF assms(3,4,1)]
  obtain q where q: "py_truediv now W = Inr q" "py_int q = now div W" by simp
  show ?thesis
    using assms(2,5)
    by (simp add: append_current_root_hash_to_historical_def q Let_def
        save_historical_root_hashes_def get_historical_root_hashes_def ring_invariant_def)
qed

lemma append_current_root_hash_to_historical_same_window:
  assumes "0 < W" and "0 \<le> now" and "now < 2 ^ 53"
    and "get_historical_root_hashes self = Some hr" and "hr \<noteq> []"
    and "(now div W) * W < fst (last hr)"
  shows "append_current_root_hash_to_historical W N now self =
     Inr (save_historical_root_hashes (hr[length hr - 1 := (fst (last hr), root_hash self)]) self)"
proof -
  from py_truediv_nonneg [OF assms(2,3,1)]
  obtain q where q: "py_truediv now W = Inr q" "py_int q = now div W" by simp
  have "nat (int (length hr) - 1) = length hr - 1" by simp
  then show ?thesis
    using assms(4-6)
    by (simp add: append_current_root_hash_to_historical_def q Let_def py_setitem_def)
qed

lemma append_current_root_hash_to_historical_keeps_invariant:
  assumes W: "0 < W" and N: "0 < N" and now: "0 \<le> now" "now < 2 ^ 53"
    and ring: "get_historical_root_hashes self = Some hr" "hr \<noteq> []"
    and inv: "ring_invariant W N hr"
    and al: "\<forall>e\<in>set hr. 0 \<le> fst e \<and> fst e mod W = 0"
    and ge: "now - N * W \<le> fst (last hr)"
  shows "\<exists>self' ring. append_current_root_hash_to_historical W N now self = Inr self'
     \<and> get_historical_root_hashes self' = Some ring \<and> ring_invariant W N ring"
proof (cases "(now div W) * W < fst (last hr)")
  case True
  have "map fst (hr[length hr - 1 := (fst (last hr), root_hash self)]) = map fst hr"
    using ring(2) by (intro nth_equalityI) (auto simp: nth_list_update last_conv_nth)
  with inv show ?thesis
    by (simp add: append_current_root_hash_to_historical_same_window [OF W now ring True]
        save_historical_root_hashes_def get_historical_root_hashes_def ring_invariant_def)
next
  case False
  then have le: "fst (last hr) \<le> (now div W) * W" by simp
  define latest where "latest = fst (last hr)"
  define synth where "synth = map (\<lambda>j. j * W) [latest div W + 1..now div W]"
  define appended where "appended = hr @ map (\<lambda>j. (j * W, snd (last hr))) [latest div W + 1..now div W]
                           @ [((now div W) * W + W, root_hash self)]"
  from inv have srt: "sorted (map fst hr)" and sp: "ring_spaced W (map fst hr)"
    by (simp_all add: ring_invariant_def strict_sorted_imp_sorted)
  from append_current_root_hash_to_historical_else_branch [OF W N now ring srt al le ge]
  obtain self' where res: "append_current_root_hash_to_historical W N now self = Inr self'"
    and r: "get_historical_root_hashes self' = Some (drop (length appended - nat N) appended)"
    by (auto simp: Let_def appended_def latest_def)
  from ring(2) al have lat: "latest mod W = 0" by (simp add: latest_def)
  then have lat': "latest = (latest div W) * W" using div_mult_mod_eq [of latest W] by simp
  have fsts: "map fst appended = (map fst hr @ synth) @ [(now div W) * W + W]"
    by (simp add: appended_def synth_def comp_def)
  have last_hr: "last (map fst hr) = latest" using ring(2) by (simp add: latest_def last_map)
  have sp1: "ring_spaced W (map fst hr @ synth)" and l1: "last (map fst hr @ synth) = (now div W) * W"
  proof -
    show "ring_spaced W (map fst hr @ synth)"
    proof (cases "synth = []")
      case True
      with sp show ?thesis by simp
    next
      case False
      then have "latest div W + 1 \<le> now div W" by (simp add: synth_def)
      then have "hd synth = (latest div W + 1) * W" by (simp add: synth_def upto_rec1 [of "latest div W + 1"])
      also have "\<dots> = last (map fst hr) + W" by (subst last_hr, subst (2) lat') (simp add: algebra_simps)
      finally show ?thesis
        using sp False ring(2)
        by (intro ring_spaced_append [of W "map fst hr"]) (simp_all add: synth_def ring_spaced_progression)
    qed
    show "last (map fst hr @ synth) = (now div W) * W"
    proof (cases "synth = []")
      case True
      then have "now div W \<le> latest div W" by (simp add: synth_def)
      then have "(now div W) * W \<le> (latest div W) * W" using W by (simp add: mult_right_mono)
      with lat' le have "latest = (now div W) * W" by (simp add: latest_def)
      with True last_hr show ?thesis by simp
    next
      case False
      then have "latest div W + 1 \<le> now div W" by (simp add: synth_def)
      then have "last [latest div W + 1..now div W] = now div W"
        by (simp add: upto_rec2 [of "latest div W + 1"])
      with False show ?thesis by (simp add: synth_def last_map)
    qed
  qed
  have "ring_spaced W (map fst appended)"
    unfolding fsts using sp1 l1 ring(2) by (intro ring_spaced_append [of W "map fst hr @ synth"]) simp_all
  then have sp2: "ring_spaced W (map fst (drop (length appended - nat N) appended))"
    by (simp add: ring_spaced_drop flip: drop_map)
  have len: "int (length (drop (length appended - nat N) appended)) \<le> N + 1"
    using N by simp
  from sp2 len W res r show ?thesis
    by (simp add: ring_invariant_def ring_spaced_sorted)
qed

lemma append_current_root_hash_to_historical_offline_breaks_invariant:
  assumes W: "0 < W" and N: "0 < N" and now: "0 \<le> now" "now < 2 ^ 53"
    and ring: "get_historical_root_hashes self = Some hr" "hr \<noteq> []"
    and old: "fst (last hr) < now - N * W"
    and res: "append_current_root_hash_to_historical W N now self = Inr self'"
  shows "\<exists>ring. get_historical_root_hashes self' = Some ring \<and> \<not> ring_invariant W N ring"
proof -
  from py_truediv_nonneg [OF now W]
  obtain q where q: "py_truediv now W = Inr q" "py_int q = now div W" by simp
  define lfw where "lfw = (now div W) * W"
  have lfw: "now < lfw + W"
    unfolding lfw_def using W div_mult_mod_eq [of now W] pos_mod_bound [of W now] by linarith
  have "N * W \<ge> W" using N W by (simp add: mult_le_cancel_right1)
  with old lfw have nb: "\<not> lfw < fst (last hr)" by simp
  define new where "new = map (\<lambda>i. (now - N * W + W * i, snd (last hr))) [0..N - 1]
                            @ [(lfw + W, root_hash self)]"
  from res obtain ws where
    "delete_chronological_block_windows W ws (save_historical_root_hashes new self) = Inr self'"
    using ring nb old
    by (auto simp: append_current_root_hash_to_historical_def q Let_def bind_err_eq_Inr
        lfw_def new_def)
  from delete_chronological_block_windows_frame [OF this]
  have r: "get_historical_root_hashes self' = Some new"
    by (simp add: get_historical_root_hashes_def save_historical_root_hashes_def)
  have up: "[0..N - 1] = [0..N - 2] @ [N - 1]"
    using N upto_rec2 [of 0 "N - 1"] by (simp add: algebra_simps)
  have "map fst new = map (\<lambda>i. now - N * W + W * i) [0..N - 2] @ [now - W, lfw + W]"
    by (simp add: new_def up comp_def algebra_simps)
  moreover have "lfw + W \<noteq> now - W + W" using lfw by simp
  ultimately have "\<not> ring_spaced W (map fst new)" by (simp add: ring_spaced_snoc)
  with r show ?thesis by (simp add: ring_invariant_def)
qed

subsection \<open>A ring older than the retention\<close>

text \<open>
  Claim C2, at the input of scenario S4: \<open>W = 1000\<close>, \<open>N = 4\<close>, the ring
  \<open>[(1000, R0)]\<close>, a handle at \<open>R0\<close> and the clock at \<open>10000\<close>. The ring that the code
  saves starts at \<open>now - N * W = 6000\<close>: its windows are 6000, 7000, 8000, 9000 and
  11000, with no entry for the last finished window 10000.
\<close>

theorem append_current_root_hash_to_historical_offline_S4:
  "map_sum id get_historical_root_hashes
     (append_current_root_hash_to_historical 1000 4 10000
        (ChainHeadDB_init (store_with_ring [(1000, root_R0)]) root_R0))
   = Inr (Some [(6000, root_R0), (7000, root_R0), (8000, root_R0), (9000, root_R0),
                (11000, root_R0)])"
  by (simp add: append_current_root_hash_to_historical_def py_truediv_def py_float_def
      get_historical_root_hashes_def ChainHeadDB_init_def store_with_ring_def Let_def
      save_historical_root_hashes_def py_range_step_def delete_chronological_block_window_def
      validate_uint256_def upt_rec upto_rec1)

text \<open>
  Claim C3, at the same input: the ring \<open>[(1000, R0)]\<close> satisfies the invariant, the
  ring saved by \<open>append_current_root_hash_to_historical\<close> does not (its last two windows,
  9000 and 11000, are \<open>2 * W\<close> apart).
\<close>

theorem append_current_root_hash_to_historical_breaks_invariant:
  "ring_invariant 1000 4 [(1000, root_R0)]
   \<and> map_sum id (map_option (ring_invariant 1000 4) \<circ> get_historical_root_hashes)
       (append_current_root_hash_to_historical 1000 4 10000
          (ChainHeadDB_init (store_with_ring [(1000, root_R0)]) root_R0))
     = Inr (Some False)"
  by (simp add: append_current_root_hash_to_historical_def py_truediv_def py_float_def
      get_historical_root_hashes_def ChainHeadDB_init_def store_with_ring_def Let_def
      save_historical_root_hashes_def py_range_step_def delete_chronological_block_window_def
      validate_uint256_def upt_rec upto_rec1 ring_invariant_def)

subsection \<open>Late blocks\<close>

text \<open>
  The start index of the loop of \<open>add_block_hash_to_timestamp\<close> is the result of a true
  division, a float, and \<^verbatim>\<open>range\<close> refuses it: no call returns normally.
\<close>

lemma add_block_hash_to_timestamp_never_returns:
  "add_block_hash_to_timestamp W N now address head_hash timestamp self \<noteq> Inr self'"
proof
  assume "add_block_hash_to_timestamp W N now address head_hash timestamp self = Inr self'"
  then obtain first hr starting_index num_increments "is"
    where "py_truediv (timestamp - fst first) W = Inr starting_index"
      and "py_range starting_index (PyInt num_increments) = Inr is"
    by (auto simp: add_block_hash_to_timestamp_def bind_err_eq_Inr Let_def
        split: if_splits option.splits)
  with py_truediv_is_float show False by fastforce
qed

text \<open>
  Claim C1, at the input of scenario S3 and at a later timestamp of the same ring:
  \<open>W = 1000\<close>, \<open>N = 4\<close>, the clock at \<open>10000\<close>, the ring
  \<open>[(9000, R0), (10000, R0), (11000, R1)]\<close> with \<open>R0\<close> the empty snapshot and
  \<open>R1 = put(R0, A, H1)\<close>, a handle at \<open>R1\<close>. Both
  \<open>add_block_hash_to_timestamp(A, H2, 9000)\<close> and
  \<open>add_block_hash_to_timestamp(A, H2, 10000)\<close> raise \<^verbatim>\<open>TypeError\<close>.
\<close>

theorem add_block_hash_to_timestamp_S3:
  "add_block_hash_to_timestamp 1000 4 10000 addr_A hash_H2 9000
     (ChainHeadDB_init
        (store_with_ring [(9000, BLANK_HASH), (10000, BLANK_HASH), (11000, root_R0)]) root_R0)
   = Inl TypeError
   \<and> add_block_hash_to_timestamp 1000 4 10000 addr_A hash_H2 10000
     (ChainHeadDB_init
        (store_with_ring [(9000, BLANK_HASH), (10000, BLANK_HASH), (11000, root_R0)]) root_R0)
   = Inl TypeError"
  by (simp add: add_block_hash_to_timestamp_def validate_canonical_address_def
      validate_is_bytes_def validate_uint256_def
      append_current_root_hash_to_historical_def py_truediv_def py_float_def
      get_historical_root_hashes_def ChainHeadDB_init_def store_with_ring_def Let_def
      save_historical_root_hashes_def py_setitem_def)

subsection \<open>Head hashes at a timestamp\<close>

lemma read_head_projection:
  assumes "length address = 20"
  shows "bind_err (cache_get address h) (\<lambda>(head_hash, _). Inr head_hash)
           = map_sum id fst (get_chain_head_hash address h)"
  using assms
  by (cases "cache_get address h")
     (auto simp: get_chain_head_hash_def validate_canonical_address_def)

lemma get_chain_head_hash_at_timestamp_valid:
  assumes "length address = 20" and "0 \<le> timestamp" and "timestamp < 2 ^ 256"
    and "timestamp \<le> now" and "timestamp mod W = 0"
  shows "get_chain_head_hash_at_timestamp W now address timestamp self =
    (case get_historical_root_hashes self of
       None \<Rightarrow> Inr None
     | Some historical_roots \<Rightarrow>
         if historical_roots = [] then Inl IndexError
         else if timestamp < fst (hd historical_roots) then Inr None
         else map_sum id fst (get_chain_head_hash address (ChainHeadDB_init (db self)
                (case map_of (rev historical_roots) timestamp of
                   Some r \<Rightarrow> r | None \<Rightarrow> snd (last historical_roots)))))"
  using assms
  by (auto simp: get_chain_head_hash_at_timestamp_def validate_canonical_address_def
      validate_uint256_def read_head_projection Let_def split: option.splits)

lemma read_head_not_timestamp_error:
  "map_sum id fst (get_chain_head_hash address h) \<noteq> Inl InvalidHeadRootTimestamp"
  by (auto simp: get_chain_head_hash_def validate_canonical_address_def cache_get_def
      trie_get_def split: option.splits if_splits)

text \<open>
  Claim C5. For a canonical address and a timestamp in \<open>[0, 2\<^sup>2\<^sup>5\<^sup>6)\<close>,
  \<open>get_chain_head_hash_at_timestamp\<close> raises \<open>InvalidHeadRootTimestamp\<close> exactly when the
  timestamp is later than \<open>now\<close> or no multiple of \<open>W\<close>. Otherwise: without a ring, or
  for a timestamp before the first window of the ring, it returns \<open>None\<close>; if an entry
  of the ring has the timestamp as its window, it returns what \<open>get_chain_head_hash\<close>
  returns on a new handle at the root of such an entry; if no entry has, it returns
  what \<open>get_chain_head_hash\<close> returns on a new handle at the root of the last entry.
\<close>

theorem get_chain_head_hash_at_timestamp_cases:
  assumes "length address = 20" and "0 \<le> timestamp" and "timestamp < 2 ^ 256" and "0 < W"
  shows "(get_chain_head_hash_at_timestamp W now address timestamp self = Inl InvalidHeadRootTimestamp
            \<longleftrightarrow> now < timestamp \<or> timestamp mod W \<noteq> 0)
    \<and> (timestamp \<le> now \<and> timestamp mod W = 0 \<longrightarrow>
         (case get_historical_root_hashes self of
            None \<Rightarrow> get_chain_head_hash_at_timestamp W now address timestamp self = Inr None
          | Some historical_roots \<Rightarrow>
              historical_roots \<noteq> [] \<longrightarrow>
              (if timestamp < fst (hd historical_roots)
               then get_chain_head_hash_at_timestamp W now address timestamp self = Inr None
               else if timestamp \<in> fst ` set historical_roots
               then \<exists>r. (timestamp, r) \<in> set historical_roots
                      \<and> get_chain_head_hash_at_timestamp W now address timestamp self
                          = map_sum id fst (get_chain_head_hash address (ChainHeadDB_init (db self) r))
               else get_chain_head_hash_at_timestamp W now address timestamp self
                      = map_sum id fst (get_chain_head_hash address
                          (ChainHeadDB_init (db self) (snd (last historical_roots)))))))"
proof (cases "timestamp \<le> now \<and> timestamp mod W = 0")
  case False
  with assms show ?thesis
    by (auto simp: get_chain_head_hash_at_timestamp_def validate_canonical_address_def
        validate_uint256_def)
next
  case True
  then have v: "timestamp \<le> now" "timestamp mod W = 0" by simp_all
  note eq = get_chain_head_hash_at_timestamp_valid [OF assms(1-3) v, of self]
  show ?thesis
  proof (cases "get_historical_root_hashes self")
    case None
    with eq v show ?thesis by simp
  next
    case (Some hr)
    show ?thesis
    proof (cases "map_of (rev hr) timestamp")
      case None
      then have "timestamp \<notin> fst ` set hr" by (simp add: map_of_eq_None_iff)
      with eq v Some None show ?thesis
        by (auto simp: read_head_not_timestamp_error)
    next
      case (Some r)
      then have "(timestamp, r) \<in> set hr" by (auto dest: map_of_SomeD)
      then have "timestamp \<in> fst ` set hr" by force
      with eq v \<open>get_historical_root_hashes self = Some hr\<close> Some \<open>(timestamp, r) \<in> set hr\<close>
      show ?thesis
        by (auto simp: read_head_not_timestamp_error)
    qed
  qed
qed


theorem get_chain_head_hash_at_timestamp_cases_witness:
  "get_chain_head_hash_at_timestamp 1000 10000 addr_A 10001
      (ChainHeadDB_init (store_with_ring [(9000, root_R0), (11000, BLANK_HASH)]) root_R0)
     = Inl InvalidHeadRootTimestamp
   \<and> get_chain_head_hash_at_timestamp 1000 10000 addr_A 9000
      (ChainHeadDB_init empty_store BLANK_HASH) = Inr None
   \<and> get_chain_head_hash_at_timestamp 1000 10000 addr_A 8000
      (ChainHeadDB_init (store_with_ring [(9000, root_R0), (11000, BLANK_HASH)]) root_R0)
     = Inr None
   \<and> get_chain_head_hash_at_timestamp 1000 10000 addr_A 9000
      (ChainHeadDB_init (store_with_ring [(9000, root_R0), (11000, BLANK_HASH)]) root_R0)
     = Inr (Some hash_H1)
   \<and> get_chain_head_hash_at_timestamp 1000 10000 addr_A 10000
      (ChainHeadDB_init (store_with_ring [(9000, root_R0), (11000, BLANK_HASH)]) root_R0)
     = Inr None"
proof -
  let ?h = "ChainHeadDB_init (store_with_ring [(9000, root_R0), (11000, BLANK_HASH)]) root_R0"
  have ring: "get_historical_root_hashes ?h = Some [(9000, root_R0), (11000, BLANK_HASH)]"
    by (simp add: get_historical_root_hashes_def ChainHeadDB_init_def store_with_ring_def)
  have none: "get_historical_root_hashes (ChainHeadDB_init empty_store BLANK_HASH) = None"
    by (simp add: get_historical_root_hashes_def ChainHeadDB_init_def empty_store_def)
  have r0: "map_sum id fst (get_chain_head_hash addr_A (ChainHeadDB_init (db ?h) root_R0))
              = Inr (Some hash_H1)"
    by (simp add: get_chain_head_hash_def validate_canonical_address_def cache_get_def
        trie_get_def trie_readable_def ChainHeadDB_init_def store_with_ring_def root_R0_def)
  have blank: "map_sum id fst (get_chain_head_hash addr_A (ChainHeadDB_init (db ?h) BLANK_HASH))
              = Inr None"
    by (simp add: get_chain_head_hash_def validate_canonical_address_def cache_get_def
        trie_get_def trie_readable_def ChainHeadDB_init_def BLANK_HASH_def)
  show ?thesis
    using get_chain_head_hash_at_timestamp_cases [of addr_A 10001 1000 10000 ?h]
      get_chain_head_hash_at_timestamp_cases
        [of addr_A 9000 1000 10000 "ChainHeadDB_init empty_store BLANK_HASH"]
      get_chain_head_hash_at_timestamp_cases [of addr_A 8000 1000 10000 ?h]
      get_chain_head_hash_at_timestamp_cases [of addr_A 9000 1000 10000 ?h]
      get_chain_head_hash_at_timestamp_cases [of addr_A 10000 1000 10000 ?h]
    by (simp add: ring none r0 blank)
qed

subsection \<open>Saving the current root and loading it again\<close>

text \<open>
  Claim C7. Open a handle on a store, set the head hash of an address and persist with
  \<open>save_current_root_hash = True\<close>. When both calls have returned,
  \<open>load_from_saved_root_hash\<close> on the resulting store gives a handle at the root that was
  saved, and \<open>get_chain_head_hash\<close> of the address on it returns the hash that was set.
  On a store without the key of the current root, \<open>load_from_saved_root_hash\<close> gives a
  handle at the empty snapshot.
\<close>

theorem persist_then_load_roundtrip:
  assumes "set_chain_head_hash address head_hash (ChainHeadDB_init store r) = Inr s1"
    and "persist W N now True s1 = Inr s2"
  shows "root_hash (load_from_saved_root_hash (db s2)) = root_hash s1
    \<and> current_head_root (db s2) = Some (root_hash s1)
    \<and> (\<exists>s3. get_chain_head_hash address (load_from_saved_root_hash (db s2)) = Inr (Some head_hash, s3))
    \<and> (current_head_root store' = None \<longrightarrow>
          load_from_saved_root_hash store' = ChainHeadDB_init store' BLANK_HASH)"
proof -
  note s1 = set_chain_head_hash_Inr [OF assms(1)]
  from assms(2) have "append_current_root_hash_to_historical W N now
      ((batch_commit s1)\<lparr>db := (db (batch_commit s1))\<lparr>current_head_root := Some (root_hash (batch_commit s1))\<rparr>\<rparr>) = Inr s2"
    by (simp add: persist_def save_current_root_hash_def Let_def)
  from append_current_root_hash_to_historical_frame [OF this]
  have cur: "current_head_root (db s2) = Some (root_hash s1)"
    and nodes: "trie_nodes (db s2) = trie_nodes (db s1) \<union> batchtrie s1"
    by (simp_all add: batch_commit_def)
  have mem: "root_hash s1 \<in> trie_nodes (db s2)"
    unfolding nodes by (subst (1 2) s1(3)) simp
  have val: "root_hash s1 address = Some head_hash"
    by (subst s1(3)) simp
  have load: "load_from_saved_root_hash (db s2) = ChainHeadDB_init (db s2) (root_hash s1)"
    by (simp add: load_from_saved_root_hash_def cur)
  have "\<exists>s3. get_chain_head_hash address (load_from_saved_root_hash (db s2)) = Inr (Some head_hash, s3)"
    using s1(1) mem val
    by (simp add: load get_chain_head_hash_def validate_canonical_address_def cache_get_def
        ChainHeadDB_init_def trie_get_def trie_readable_def)
  then show ?thesis
    by (simp add: load cur ChainHeadDB_init_def load_from_saved_root_hash_def)
qed

theorem persist_then_load_roundtrip_witness:
  "\<exists>s1 s2.
     set_chain_head_hash addr_A hash_H1 (ChainHeadDB_init empty_store BLANK_HASH) = Inr s1
     \<and> persist 1000 4 10000 True s1 = Inr s2
     \<and> root_hash (load_from_saved_root_hash (db s2)) = root_hash s1
     \<and> current_head_root (db s2) = Some (root_hash s1)
     \<and> (\<exists>s3. get_chain_head_hash addr_A (load_from_saved_root_hash (db s2))
               = Inr (Some hash_H1, s3))
     \<and> load_from_saved_root_hash empty_store = ChainHeadDB_init empty_store BLANK_HASH"
proof -
  obtain s1 where
    set: "set_chain_head_hash addr_A hash_H1 (ChainHeadDB_init empty_store BLANK_HASH) = Inr s1"
    by (simp add: set_chain_head_hash_readable)
  have "historical_head_root (db s1) = None"
    by (subst set_chain_head_hash_Inr(3) [OF set]) (simp add: ChainHeadDB_init_def empty_store_def)
  then obtain s2 where p: "persist 1000 4 10000 True s1 = Inr s2"
    by (simp add: persist_def save_current_root_hash_def Let_def batch_commit_def
        append_current_root_hash_to_historical_def get_historical_root_hashes_def
        py_truediv_def py_float_def)
  have "current_head_root empty_store = None" by (simp add: empty_store_def)
  with persist_then_load_roundtrip [OF set p, of empty_store] set p
  show ?thesis by blast
qed

subsection \<open>Inserting into a chronological block window\<close>

lemma scan_back_sorted:
  assumes "sorted (map fst data)" and "n \<le> length data"
    and "\<forall>j. n \<le> j \<and> j < length data \<longrightarrow> ts < fst (data ! j)"
  shows "(case scan_back data n ts of Some i \<Rightarrow> Suc i | None \<Rightarrow> 0)
           = length (takeWhile (\<lambda>e. fst e \<le> ts) data)"
  using assms(2,3)
proof (induction n)
  case 0
  then have "takeWhile (\<lambda>e. fst e \<le> ts) data = take 0 data"
    by (intro takeWhile_eq_take_P_nth) auto
  then show ?case by simp
next
  case (Suc i)
  show ?case
  proof (cases "fst (data ! i) \<le> ts")
    case True
    have "fst (data ! j) \<le> ts" if "j < Suc i" for j
    proof -
      from that Suc.prems(1) have "map fst data ! j \<le> map fst data ! i"
        using assms(1) by (intro sorted_nth_mono) simp_all
      with that Suc.prems(1) True show ?thesis by simp
    qed
    moreover have "\<not> fst (data ! Suc i) \<le> ts" if "Suc i < length data"
      using Suc.prems(2) that by (simp add: not_le)
    ultimately have "takeWhile (\<lambda>e. fst e \<le> ts) data = take (Suc i) data"
      by (intro takeWhile_eq_take_P_nth) auto
    with True Suc.prems(1) show ?thesis by simp
  next
    case False
    then have "\<forall>j. i \<le> j \<and> j < length data \<longrightarrow> ts < fst (data ! j)"
      using Suc.prems(2) by (metis Suc_leI le_neq_implies_less not_le)
    with Suc.IH Suc.prems(1) False show ?thesis by simp
  qed
qed

lemma add_block_hash_to_chronological_window_recent:
  assumes "0 < W" and "0 \<le> timestamp" and "timestamp < 2 ^ 53" and "now - N * W < timestamp"
  shows "add_block_hash_to_chronological_window W N now head_hash timestamp self =
     Inr (self\<lparr>db := (db self)\<lparr>chronological_window :=
       (chronological_window (db self))((timestamp div W) * W \<mapsto>
          (case chronological_window (db self) ((timestamp div W) * W) of
             None \<Rightarrow> [(timestamp, head_hash)]
           | Some data \<Rightarrow>
               (case scan_back data (length data) timestamp of
                  Some i \<Rightarrow> py_insert data (i + 1) (timestamp, head_hash)
                | None \<Rightarrow> py_insert data 0 (timestamp, head_hash))))\<rparr>\<rparr>)"
proof -
  from py_truediv_nonneg [OF assms(2,3,1)]
  obtain q where q: "py_truediv timestamp W = Inr q" "py_int q = timestamp div W" by simp
  have "(timestamp div W) * W \<le> timestamp"
    using assms(1) div_mult_mod_eq [of timestamp W] pos_mod_sign [of W timestamp] by linarith
  moreover have "0 \<le> (timestamp div W) * W"
    using assms(1,2) by (simp add: pos_imp_zdiv_nonneg_iff)
  ultimately have w: "0 \<le> (timestamp div W) * W" "(timestamp div W) * W \<le> timestamp"
    by simp_all
  have "timestamp < 2 ^ 256" using assms(3) by (rule less_trans) simp
  with w assms(2) have v: "validate_uint256 timestamp = Inr ()"
      "validate_uint256 ((timestamp div W) * W) = Inr ()"
    by (simp_all add: validate_uint256_def)
  show ?thesis
    using assms(4)
    by (simp add: add_block_hash_to_chronological_window_def validate_is_bytes_def v q Let_def
        load_chronological_block_window_def save_chronological_block_window_def)
qed

text \<open>
  Claim C6, as amended. Let the window \<open>(timestamp div W) * W\<close> of a timestamp be
  stored and sorted by timestamp, let the timestamp be newer than \<open>now - N * W\<close> and
  below \<open>2\<^sup>5\<^sup>3\<close>. Then \<open>add_block_hash_to_chronological_window\<close> returns, and the window
  it has saved is the old list with the new pair put after the last entry whose
  timestamp is at most the new one (in front when there is none, behind the entries of
  the same timestamp), which is sorted again.
\<close>

theorem add_block_hash_to_chronological_window_sorted:
  assumes "0 < W" and "0 \<le> timestamp" and "timestamp < 2 ^ 53" and "now - N * W < timestamp"
    and "chronological_window (db self) ((timestamp div W) * W) = Some data"
    and "sorted (map fst data)"
  shows "\<exists>self'. add_block_hash_to_chronological_window W N now head_hash timestamp self = Inr self'
    \<and> chronological_window (db self') ((timestamp div W) * W)
        = Some (takeWhile (\<lambda>e. fst e \<le> timestamp) data
                  @ (timestamp, head_hash) # dropWhile (\<lambda>e. fst e \<le> timestamp) data)
    \<and> sorted (map fst (takeWhile (\<lambda>e. fst e \<le> timestamp) data
                  @ (timestamp, head_hash) # dropWhile (\<lambda>e. fst e \<le> timestamp) data))"
proof -
  let ?P = "\<lambda>e. fst e \<le> timestamp"
  let ?n = "length (takeWhile ?P data)"
  have pos: "(case scan_back data (length data) timestamp of Some i \<Rightarrow> Suc i | None \<Rightarrow> 0) = ?n"
    using assms(6) by (intro scan_back_sorted) simp_all
  have ins: "(case scan_back data (length data) timestamp of
                  Some i \<Rightarrow> py_insert data (i + 1) (timestamp, head_hash)
                | None \<Rightarrow> py_insert data 0 (timestamp, head_hash))
             = py_insert data ?n (timestamp, head_hash)"
    using pos by (auto split: option.splits)
  have new: "py_insert data ?n (timestamp, head_hash)
               = takeWhile ?P data @ (timestamp, head_hash) # dropWhile ?P data"
    by (simp add: py_insert_def takeWhile_eq_take [symmetric] dropWhile_eq_drop [symmetric])
  have srt: "sorted (map fst (takeWhile ?P data @ (timestamp, head_hash) # dropWhile ?P data))"
  proof -
    have a: "sorted (map fst (takeWhile ?P data))" "sorted (map fst (dropWhile ?P data))"
      using assms(6) by (simp_all add: sorted_takeWhile sorted_dropWhile takeWhile_map
          dropWhile_map sorted_map comp_def) 
    have b: "\<forall>e\<in>set (takeWhile ?P data). fst e \<le> timestamp"
      by (auto dest: set_takeWhileD)
    have c: "\<forall>e\<in>set (dropWhile ?P data). timestamp \<le> fst e"
    proof
      fix e assume e: "e \<in> set (dropWhile ?P data)"
      then have ne: "dropWhile ?P data \<noteq> []" by (metis empty_iff empty_set)
      then have "\<not> ?P (hd (dropWhile ?P data))" by (rule hd_dropWhile)
      moreover have "fst (hd (dropWhile ?P data)) \<le> fst e"
        using a(2) e ne by (cases "dropWhile ?P data") auto
      ultimately show "timestamp \<le> fst e" by simp
    qed
    from a b c show ?thesis by (fastforce simp: sorted_append)
  qed
  from add_block_hash_to_chronological_window_recent [OF assms(1-4), of head_hash self] srt
  show ?thesis by (simp add: assms(5) ins new)
qed


theorem add_block_hash_to_chronological_window_sorted_witness:
  "\<exists>s1 s2 s3.
     add_block_hash_to_chronological_window 1000 4 10000 hash_H1 11250
       (ChainHeadDB_init empty_store BLANK_HASH) = Inr s1
     \<and> add_block_hash_to_chronological_window 1000 4 10000 hash_H2 11100 s1 = Inr s2
     \<and> add_block_hash_to_chronological_window 1000 4 10000 hash_H3 11900 s2 = Inr s3
     \<and> chronological_window (db s3) 11000
          = Some [(11100, hash_H2), (11250, hash_H1), (11900, hash_H3)]"
proof -
  let ?h0 = "ChainHeadDB_init empty_store BLANK_HASH"
  obtain s1 where s1: "add_block_hash_to_chronological_window 1000 4 10000 hash_H1 11250 ?h0 = Inr s1"
    and w1: "chronological_window (db s1) 11000 = Some [(11250, hash_H1)]"
    using add_block_hash_to_chronological_window_recent [of 1000 11250 10000 4 hash_H1 ?h0]
    by (simp add: ChainHeadDB_init_def empty_store_def)
  from add_block_hash_to_chronological_window_sorted
    [of 1000 11100 10000 4 s1 "[(11250, hash_H1)]" hash_H2]
  obtain s2 where s2: "add_block_hash_to_chronological_window 1000 4 10000 hash_H2 11100 s1 = Inr s2"
    and w2: "chronological_window (db s2) 11000 = Some [(11100, hash_H2), (11250, hash_H1)]"
    using w1 by auto
  from add_block_hash_to_chronological_window_sorted
    [of 1000 11900 10000 4 s2 "[(11100, hash_H2), (11250, hash_H1)]" hash_H3]
  obtain s3 where s3: "add_block_hash_to_chronological_window 1000 4 10000 hash_H3 11900 s2 = Inr s3"
    and w3: "chronological_window (db s3) 11000
               = Some [(11100, hash_H2), (11250, hash_H1), (11900, hash_H3)]"
    using w2 by auto
  from s1 s2 s3 w3 show ?thesis by blast
qed

text \<open>
  Claim C6 as stated, without the guard of the code: in the window 1000, stored as
  \<open>[(1100, H1)]\<close> and sorted, the timestamp 1200 falls; with \<open>W = 1000\<close>, \<open>N = 4\<close> and the
  clock at 10000 it is older than \<open>now - N * W\<close>, and the call leaves the window as it
  is: the pair is not inserted.
\<close>

theorem add_block_hash_to_chronological_window_guarded:
  "chronological_window (store_with_window 1000 [(1100, hash_H1)]) ((1200 div 1000) * 1000)
     = Some [(1100, hash_H1)]
   \<and> sorted (map fst [(1100 :: int, hash_H1)])
   \<and> add_block_hash_to_chronological_window 1000 4 10000 hash_H2 1200
        (ChainHeadDB_init (store_with_window 1000 [(1100, hash_H1)]) BLANK_HASH)
      = Inr (ChainHeadDB_init (store_with_window 1000 [(1100, hash_H1)]) BLANK_HASH)"
  by (simp add: add_block_hash_to_chronological_window_def validate_is_bytes_def
      validate_uint256_def store_with_window_def)

subsection \<open>Timestamps far in the future\<close>

text \<open>
  The float quotient of \<open>2\<^sup>6\<^sup>0 + 1 = 1152921504606846977\<close> by 1000 is rounded up to the
  integer 1152921504606847.
\<close>

lemma truediv_far_future:
  "py_truediv 1152921504606846977 1000 = Inr (PyFloat 1152921504606847)"
  by code_simp

text \<open>
  Claim C10, at the timestamp \<open>2\<^sup>6\<^sup>0 + 1\<close> with \<open>W = 1000\<close>, \<open>N = 4\<close>, the clock at 10000
  and an empty store: the call returns, the window \<open>(timestamp div W) * W\<close> holds
  nothing, and the pair is stored under the window 1152921504606847000, which starts
  after the timestamp.
\<close>

theorem add_block_hash_to_chronological_window_far_future:
  "map_sum id
     (\<lambda>s. (chronological_window (db s) ((1152921504606846977 div 1000) * 1000),
           chronological_window (db s) 1152921504606847000))
     (add_block_hash_to_chronological_window 1000 4 10000 hash_H1 1152921504606846977
        (ChainHeadDB_init empty_store BLANK_HASH))
   = Inr (None, Some [(1152921504606846977, hash_H1)])"
  by (simp add: add_block_hash_to_chronological_window_def validate_is_bytes_def
      validate_uint256_def truediv_far_future load_chronological_block_window_def
      save_chronological_block_window_def ChainHeadDB_init_def empty_store_def Let_def)

end
